theory Spec2Isabelle
  imports Complex_Main "HOL-Library.Sublist"
begin

section \<open>JavaScript primitives used by the sources\<close>

text \<open>
  Strings are lists of characters (\<open>length\<close> is the source's \<open>.length\<close>).
  Integral numbers (status codes, byte sizes, capacities, token budgets) are \<open>int\<close>.
  Case mapping is the ASCII one: HTTP methods and header names are ASCII tokens.
\<close>

definition js_slice :: "'a list \<Rightarrow> int \<Rightarrow> int \<Rightarrow> 'a list" where
  \<comment> \<open>\<open>xs.slice(start, stop)\<close>: a negative index counts from the end, both are clamped.\<close>
  "js_slice xs start stop =
     (let n = int (length xs);
          lo = (if start < 0 then max (n + start) 0 else min start n);
          hi = (if stop < 0 then max (n + stop) 0 else min stop n)
      in take (nat (hi - lo)) (drop (nat lo) xs))"

definition js_slice_from :: "'a list \<Rightarrow> int \<Rightarrow> 'a list" where
  \<comment> \<open>\<open>xs.slice(start)\<close>\<close>
  "js_slice_from xs start = js_slice xs start (int (length xs))"

definition toLowerChar :: "char \<Rightarrow> char" where
  "toLowerChar c =
     (case map_of (zip ''ABCDEFGHIJKLMNOPQRSTUVWXYZ'' ''abcdefghijklmnopqrstuvwxyz'') c of
        Some d \<Rightarrow> d | None \<Rightarrow> c)"

definition toUpperChar :: "char \<Rightarrow> char" where
  "toUpperChar c =
     (case map_of (zip ''abcdefghijklmnopqrstuvwxyz'' ''ABCDEFGHIJKLMNOPQRSTUVWXYZ'') c of
        Some d \<Rightarrow> d | None \<Rightarrow> c)"

definition toLowerCase :: "string \<Rightarrow> string" where
  "toLowerCase s = map toLowerChar s"

definition toUpperCase :: "string \<Rightarrow> string" where
  "toUpperCase s = map toUpperChar s"

fun str_includes :: "string \<Rightarrow> string \<Rightarrow> bool" where
  \<comment> \<open>\<open>s.includes(needle)\<close>\<close>
  "str_includes [] needle = (needle = [])"
| "str_includes (c # cs) needle = (prefix needle (c # cs) \<or> str_includes cs needle)"

definition startsWith :: "string \<Rightarrow> string \<Rightarrow> bool" where
  "startsWith s p = prefix p s"

definition isWhiteSpace :: "char \<Rightarrow> bool" where
  "isWhiteSpace c = (of_char c \<in> {9, 10, 11, 12, 13, 32, 160 :: nat})"

definition trim_is_empty :: "string \<Rightarrow> bool" where
  \<comment> \<open>\<open>!s.trim()\<close>: nothing but white space\<close>
  "trim_is_empty s = list_all isWhiteSpace s"

definition digit_char :: "nat \<Rightarrow> char" where
  "digit_char d = ''0123456789'' ! d"

fun show_nat :: "nat \<Rightarrow> string" where
  "show_nat n = (if n < 10 then [digit_char n] else show_nat (n div 10) @ [digit_char (n mod 10)])"

declare show_nat.simps [simp del]

definition show_int :: "int \<Rightarrow> string" where
  \<comment> \<open>\<open>String(n)\<close> and \<open>`${n}`\<close> for an integral number\<close>
  "show_int i = (if i < 0 then CHR ''-'' # show_nat (nat (- i)) else show_nat (nat i))"

section \<open>Data model (\<open>lib/utils/types\<close>)\<close>

type_synonym headers = "(string \<times> string) list"
  \<comment> \<open>\<open>Record<string, string>\<close>: the own entries in \<open>Object.entries\<close> order, keys distinct\<close>

datatype body_loader = Loader "string option"
  \<comment> \<open>\<open>getFullResponseBody\<close>: the content the deferred \<open>getContent\<close> call resolves to,
      \<open>None\<close> when it rejects\<close>

text \<open>
  \<open>SanitizedRequest\<close> and its extension \<open>NetworkRequest\<close>. The type \<open>'n\<close> is the type of
  durations, which are fractional milliseconds in the source. The fields \<open>timestamp\<close> and
  \<open>timing\<close> are read by none of the functions below and are left out.
\<close>

record 'n SanitizedRequest =
  req_id :: string
  req_method :: string
  url :: string
  status :: int
  statusText :: string
  duration :: 'n
  requestHeaders :: headers
  requestBody :: "string option"
  requestBodySize :: int
  responseHeaders :: headers
  responseBody :: "string option"
  responseBodySize :: int
  responseMimeType :: string
  isGraphQL :: bool
  isWebSocket :: bool

record 'n NetworkRequest = "'n SanitizedRequest" +
  isReplayed :: bool
  resourceType :: string
  hasFullResponseBody :: bool
  getFullResponseBody :: "body_loader option"

section \<open>Capture store (\<open>stores/requests\<close>)\<close>

record 'n RequestsState =
  requests :: "'n NetworkRequest list"
  favorites :: "string set"
  selected :: "string set"
  isPaused :: bool
  maxRequests :: int
  searchQuery :: string

definition initialState :: "'n RequestsState" where
  "initialState = \<lparr>requests = [], favorites = {}, selected = {}, isPaused = False,
     maxRequests = 500, searchQuery = []\<rparr>"

definition addRequest :: "'n NetworkRequest \<Rightarrow> 'n RequestsState \<Rightarrow> 'n RequestsState" where
  "addRequest request state =
     (if isPaused state then state
      else
        let newRequests = requests state @ [request] in
        if int (length newRequests) > maxRequests state then
          let removed = js_slice newRequests 0 (int (length newRequests) - maxRequests state);
              newRequests' = js_slice_from newRequests (- maxRequests state);
              removedIds = set (map req_id removed)
          in state\<lparr>requests := newRequests',
                   favorites := {i \<in> favorites state. i \<notin> removedIds},
                   selected := {i \<in> selected state. i \<notin> removedIds}\<rparr>
        else state\<lparr>requests := newRequests\<rparr>)"

definition removeRequest :: "string \<Rightarrow> 'n RequestsState \<Rightarrow> 'n RequestsState" where
  "removeRequest i state =
     state\<lparr>requests := filter (\<lambda>r. req_id r \<noteq> i) (requests state),
           favorites := favorites state - {i},
           selected := selected state - {i}\<rparr>"

definition clearRequests :: "'n RequestsState \<Rightarrow> 'n RequestsState" where
  "clearRequests state = state\<lparr>requests := [], favorites := {}, selected := {}\<rparr>"

definition toggleSelected :: "string \<Rightarrow> 'n RequestsState \<Rightarrow> 'n RequestsState" where
  "toggleSelected i state =
     (if i \<in> selected state then state\<lparr>selected := selected state - {i}\<rparr>
      else state\<lparr>selected := insert i (selected state)\<rparr>)"

definition getFilteredRequests :: "'n RequestsState \<Rightarrow> 'n NetworkRequest list" where
  "getFilteredRequests state =
     (if trim_is_empty (searchQuery state) then requests state
      else
        let query = toLowerCase (searchQuery state) in
        filter (\<lambda>r. str_includes (toLowerCase (url r)) query
                    \<or> str_includes (toLowerCase (req_method r)) query
                    \<or> str_includes (show_int (status r)) query)
          (requests state))"

definition selectAll :: "'n RequestsState \<Rightarrow> 'n RequestsState" where
  "selectAll state = state\<lparr>selected := set (map req_id (getFilteredRequests state))\<rparr>"

definition deselectAll :: "'n RequestsState \<Rightarrow> 'n RequestsState" where
  "deselectAll state = state\<lparr>selected := {}\<rparr>"

definition setSelected :: "string list \<Rightarrow> 'n RequestsState \<Rightarrow> 'n RequestsState" where
  "setSelected ids state = state\<lparr>selected := set ids\<rparr>"

definition toggleFavorite :: "string \<Rightarrow> 'n RequestsState \<Rightarrow> 'n RequestsState" where
  "toggleFavorite i state =
     (if i \<in> favorites state then state\<lparr>favorites := favorites state - {i}\<rparr>
      else state\<lparr>favorites := insert i (favorites state)\<rparr>)"

definition clearFavorites :: "'n RequestsState \<Rightarrow> 'n RequestsState" where
  "clearFavorites state = state\<lparr>favorites := {}\<rparr>"

definition setPaused :: "bool \<Rightarrow> 'n RequestsState \<Rightarrow> 'n RequestsState" where
  "setPaused paused state = state\<lparr>isPaused := paused\<rparr>"

definition setMaxRequests :: "int \<Rightarrow> 'n RequestsState \<Rightarrow> 'n RequestsState" where
  "setMaxRequests mx state =
     (if mx < int (length (requests state)) then
        let removed = js_slice (requests state) 0 (int (length (requests state)) - mx);
            removedIds = set (map req_id removed)
        in state\<lparr>maxRequests := mx,
                 requests := js_slice_from (requests state) (- mx),
                 favorites := {i \<in> favorites state. i \<notin> removedIds},
                 selected := {i \<in> selected state. i \<notin> removedIds}\<rparr>
      else state\<lparr>maxRequests := mx\<rparr>)"

definition setSearchQuery :: "string \<Rightarrow> 'n RequestsState \<Rightarrow> 'n RequestsState" where
  "setSearchQuery query state = state\<lparr>searchQuery := query\<rparr>"

text \<open>A run of admissions: \<open>addRequest\<close> called once per record, in arrival order.\<close>

definition admit_all :: "'n NetworkRequest list \<Rightarrow> 'n RequestsState \<Rightarrow> 'n RequestsState" where
  "admit_all rs state = foldl (\<lambda>s r. addRequest r s) state rs"

text \<open>Every mutation of the store, as one step function.\<close>

datatype 'n store_op =
    AddRequest "'n NetworkRequest"
  | RemoveRequest string
  | ClearRequests
  | ToggleSelected string
  | SelectAll
  | DeselectAll
  | SetSelected "string list"
  | ToggleFavorite string
  | ClearFavorites
  | SetPaused bool
  | SetMaxRequests int
  | SetSearchQuery string

fun apply_op :: "'n store_op \<Rightarrow> 'n RequestsState \<Rightarrow> 'n RequestsState" where
  "apply_op (AddRequest r) s = addRequest r s"
| "apply_op (RemoveRequest i) s = removeRequest i s"
| "apply_op ClearRequests s = clearRequests s"
| "apply_op (ToggleSelected i) s = toggleSelected i s"
| "apply_op SelectAll s = selectAll s"
| "apply_op DeselectAll s = deselectAll s"
| "apply_op (SetSelected ids) s = setSelected ids s"
| "apply_op (ToggleFavorite i) s = toggleFavorite i s"
| "apply_op ClearFavorites s = clearFavorites s"
| "apply_op (SetPaused p) s = setPaused p s"
| "apply_op (SetMaxRequests m) s = setMaxRequests m s"
| "apply_op (SetSearchQuery q) s = setSearchQuery q s"

definition op_names_present :: "'n store_op \<Rightarrow> 'n RequestsState \<Rightarrow> bool" where
  \<comment> \<open>the ids an operation puts into a side table belong to records of the sequence\<close>
  "op_names_present op s =
     (case op of
        ToggleSelected i \<Rightarrow> i \<in> set (map req_id (requests s))
      | ToggleFavorite i \<Rightarrow> i \<in> set (map req_id (requests s))
      | SetSelected ids \<Rightarrow> set ids \<subseteq> set (map req_id (requests s))
      | _ \<Rightarrow> True)"

definition sample_request :: "string \<Rightarrow> int NetworkRequest" where
  "sample_request i =
     \<lparr>req_id = i, req_method = ''GET'', url = ''https://x/a'', status = 200, statusText = ''OK'',
      duration = 0, requestHeaders = [], requestBody = None, requestBodySize = 0,
      responseHeaders = [], responseBody = None, responseBodySize = 0, responseMimeType = [],
      isGraphQL = False, isWebSocket = False, isReplayed = False, resourceType = ''xhr'',
      hasFullResponseBody = True, getFullResponseBody = None\<rparr>"

definition present_ids :: "'n RequestsState \<Rightarrow> string set" where
  "present_ids s = set (map req_id (requests s))"

definition side_tables_ok :: "'n RequestsState \<Rightarrow> bool" where
  \<comment> \<open>favourites and selection name only records in the sequence\<close>
  "side_tables_ok s = (favorites s \<subseteq> present_ids s \<and> selected s \<subseteq> present_ids s)"

section \<open>Redaction engine (\<open>lib/sanitizer\<close>)\<close>

record SanitizationRule =
  rule_id :: string
  name :: string
  pattern :: string
  replacement :: string
  enabled :: bool
  isDefault :: bool

text \<open>
  The regular-expression engine belongs to the JavaScript platform, not to the repository,
  and is a parameter of the model: \<open>RegExp_new p\<close> is \<open>new RegExp(p, "gi")\<close>, with \<open>None\<close>
  for the \<open>SyntaxError\<close> it throws on a malformed pattern; \<open>RegExp_test re s\<close> is
  \<open>re.test(s)\<close> on a fresh expression; \<open>String_replace re s rep\<close> is \<open>s.replace(re, rep)\<close>,
  which for a global expression starts at index 0 whatever \<open>test\<close> did before.
\<close>

record 'r RegExp_api =
  RegExp_new :: "string \<Rightarrow> 'r option"
  RegExp_test :: "'r \<Rightarrow> string \<Rightarrow> bool"
  String_replace :: "'r \<Rightarrow> string \<Rightarrow> string \<Rightarrow> string"

fun sanitize_loop :: "'r RegExp_api \<Rightarrow> SanitizationRule list \<Rightarrow> string \<Rightarrow> string" where
  \<comment> \<open>the \<open>for (const rule of enabledRules)\<close> loop with its \<open>try\<close>/\<open>catch\<close>\<close>
  "sanitize_loop E [] cur = cur"
| "sanitize_loop E (rule # rest) cur =
     sanitize_loop E rest
       (case RegExp_new E (pattern rule) of
          None \<Rightarrow> cur
        | Some regex \<Rightarrow> String_replace E regex cur (replacement rule))"

definition sanitizeValue :: "'r RegExp_api \<Rightarrow> string \<Rightarrow> SanitizationRule list \<Rightarrow> string" where
  "sanitizeValue E v rules =
     (if v = [] then v
      else let enabledRules = filter enabled rules in sanitize_loop E enabledRules v)"

record SanitizationPreview =
  original :: string
  sanitized :: string
  matchedRules :: "string list"
  hasChanges :: bool

fun preview_loop ::
  "'r RegExp_api \<Rightarrow> string \<Rightarrow> SanitizationRule list \<Rightarrow> string list \<times> string \<Rightarrow> string list \<times> string"
where
  "preview_loop E v [] acc = acc"
| "preview_loop E v (rule # rest) (matched, cur) =
     preview_loop E v rest
       (case RegExp_new E (pattern rule) of
          None \<Rightarrow> (matched, cur)
        | Some regex \<Rightarrow>
            ((if RegExp_test E regex v then matched @ [name rule] else matched),
             String_replace E regex cur (replacement rule)))"

definition previewSanitization ::
  "'r RegExp_api \<Rightarrow> string \<Rightarrow> SanitizationRule list \<Rightarrow> SanitizationPreview" where
  "previewSanitization E v rules =
     (let enabledRules = filter enabled rules;
          (matched, result) = preview_loop E v enabledRules ([], v)
      in \<lparr>original = v, sanitized = result, matchedRules = matched,
          hasChanges = (v \<noteq> result)\<rparr>)"

text \<open>
  The contract of \<open>Sanitize\<close> in the words of the specification: the enabled rules, in list
  order, each a replacement on the output of the previous one, a rule whose pattern does
  not compile being skipped.
\<close>

definition apply_rule :: "'r RegExp_api \<Rightarrow> SanitizationRule \<Rightarrow> string \<Rightarrow> string" where
  "apply_rule E rule s =
     (case RegExp_new E (pattern rule) of
        None \<Rightarrow> s
      | Some regex \<Rightarrow> String_replace E regex s (replacement rule))"

definition Sanitize_spec :: "'r RegExp_api \<Rightarrow> string \<Rightarrow> SanitizationRule list \<Rightarrow> string" where
  "Sanitize_spec E v rules =
     foldl (\<lambda>acc rule. if enabled rule then apply_rule E rule acc else acc) v rules"

text \<open>
  Conditions on a rule list under which a second pass changes nothing: each rule, applied
  twice, gives what it gives applied once; and a later rule never turns a text that an
  earlier rule leaves unchanged into one that the earlier rule would change.
\<close>

definition rule_idempotent :: "'r RegExp_api \<Rightarrow> SanitizationRule \<Rightarrow> bool" where
  "rule_idempotent E r = (\<forall>t. apply_rule E r (apply_rule E r t) = apply_rule E r t)"

definition keeps_fixed :: "'r RegExp_api \<Rightarrow> SanitizationRule \<Rightarrow> SanitizationRule \<Rightarrow> bool" where
  \<comment> \<open>\<open>later\<close> maps the texts that \<open>r\<close> leaves unchanged to texts that \<open>r\<close> leaves unchanged\<close>
  "keeps_fixed E r later =
     (\<forall>t. apply_rule E r t = t \<longrightarrow> apply_rule E r (apply_rule E later t) = apply_rule E later t)"

fun stable_rules :: "'r RegExp_api \<Rightarrow> SanitizationRule list \<Rightarrow> bool" where
  "stable_rules E [] = True"
| "stable_rules E (r # rs) =
     (rule_idempotent E r \<and> (\<forall>later \<in> set rs. keeps_fixed E r later) \<and> stable_rules E rs)"

definition replacement_unmatched :: "'r RegExp_api \<Rightarrow> SanitizationRule list \<Rightarrow> bool" where
  \<comment> \<open>no rule's replacement text is matched by any rule's pattern\<close>
  "replacement_unmatched E rules =
     (\<forall>r1 \<in> set rules. \<forall>r2 \<in> set rules.
        (case RegExp_new E (pattern r1) of None \<Rightarrow> True
         | Some re \<Rightarrow> \<not> RegExp_test E re (replacement r2)))"

subsection \<open>A concrete engine for the examples\<close>

text \<open>
  The JavaScript engine on its simplest fragment: a pattern without metacharacters matches
  its own text, ignoring case, and a replacement text without \<open>$\<close> is inserted as it is.
  The empty pattern matches the empty string at every position. Patterns with a
  metacharacter are outside the fragment and are rejected here; the examples use only
  \<open>''(''\<close> among them, which JavaScript rejects too (unterminated group).
\<close>

definition lit_RegExp :: "string \<Rightarrow> string option" where
  "lit_RegExp p =
     (if list_ex (\<lambda>c. c \<in> set (CHR 0x5C # ''^$.|?*+()[]{}'')) p then None else Some p)"

definition lit_test :: "string \<Rightarrow> string \<Rightarrow> bool" where
  "lit_test p s = str_includes (toLowerCase s) (toLowerCase p)"

fun lit_replace_from :: "string \<Rightarrow> string \<Rightarrow> nat \<Rightarrow> string \<Rightarrow> string" where
  \<comment> \<open>global replacement scanning left to right; \<open>skip\<close> characters of the last match remain\<close>
  "lit_replace_from p rep skip [] = (if skip = 0 \<and> p = [] then rep else [])"
| "lit_replace_from p rep skip (c # cs) =
     (if skip > 0 then lit_replace_from p rep (skip - 1) cs
      else if prefix (toLowerCase p) (toLowerCase (c # cs)) then
        (if p = [] then rep @ c # lit_replace_from p rep 0 cs
         else rep @ lit_replace_from p rep (length p - 1) cs)
      else c # lit_replace_from p rep 0 cs)"

definition lit_replace :: "string \<Rightarrow> string \<Rightarrow> string \<Rightarrow> string" where
  "lit_replace p s rep = lit_replace_from p rep 0 s"

definition literal_engine :: "string RegExp_api" where
  "literal_engine =
     \<lparr>RegExp_new = lit_RegExp, RegExp_test = lit_test, String_replace = lit_replace\<rparr>"

definition sample_rule :: "string \<Rightarrow> string \<Rightarrow> SanitizationRule" where
  \<comment> \<open>\<open>createSanitizationRule\<close> with fixed id and name\<close>
  "sample_rule p rep =
     \<lparr>rule_id = ''1'', name = ''custom'', pattern = p, replacement = rep, enabled = True,
      isDefault = False\<rparr>"

definition upper_rules :: "SanitizationRule list" where
  \<comment> \<open>two rules whose replacement still matches their own pattern, a rule whose pattern
      does not compile, and a disabled rule\<close>
  "upper_rules =
     [sample_rule ''a'' ''A'', sample_rule ''('' ''y'', sample_rule ''b'' ''B'',
      (sample_rule ''c'' ''dd'')\<lparr>enabled := False\<rparr>]"

section \<open>Request classifier (\<open>lib/utils/graphql\<close>)\<close>

datatype json =
    JNull
  | JBool bool
  | JNum rat
  | JStr string
  | JArr "json list"
  | JObj "(string \<times> json) list"
  \<comment> \<open>the own properties of a parsed object, keys distinct\<close>

text \<open>
  \<open>JSON.parse\<close> belongs to the platform and is a parameter: \<open>None\<close> stands for the
  \<open>SyntaxError\<close> it throws.
\<close>

type_synonym json_parser = "string \<Rightarrow> json option"

definition safeJsonParse :: "json_parser \<Rightarrow> string \<Rightarrow> json" where
  "safeJsonParse JSON_parse str = (case JSON_parse str of Some j \<Rightarrow> j | None \<Rightarrow> JNull)"

definition trim :: "string \<Rightarrow> string" where
  "trim s = rev (dropWhile isWhiteSpace (rev (dropWhile isWhiteSpace s)))"

definition truthy_string :: "string option \<Rightarrow> bool" where
  \<comment> \<open>a \<open>string | null\<close> used as a condition\<close>
  "truthy_string b = (case b of None \<Rightarrow> False | Some s \<Rightarrow> s \<noteq> [])"

definition content_type_of :: "headers \<Rightarrow> string option" where
  \<comment> \<open>\<open>Object.entries(h).find(([key]) => key.toLowerCase() === "content-type")?.[1]\<close>\<close>
  "content_type_of h =
     map_option snd (find (\<lambda>(key, _). toLowerCase key = ''content-type'') h)"

definition is_object :: "json \<Rightarrow> bool" where
  \<comment> \<open>\<open>parsed && typeof parsed === "object"\<close>\<close>
  "is_object j = (case j of JObj _ \<Rightarrow> True | JArr _ \<Rightarrow> True | _ \<Rightarrow> False)"

definition get_query :: "json \<Rightarrow> json option" where
  \<comment> \<open>\<open>body.query\<close>, \<open>None\<close> for \<open>undefined\<close>\<close>
  "get_query j = (case j of JObj kvs \<Rightarrow> map_of kvs ''query'' | _ \<Rightarrow> None)"

definition isGraphQLRequest :: "json_parser \<Rightarrow> ('n, 'a) NetworkRequest_scheme \<Rightarrow> bool" where
  "isGraphQLRequest JSON_parse request =
     (let urlLower = toLowerCase (url request);
          hasGraphQLUrl = str_includes urlLower ''/graphql'';
          contentType = content_type_of (requestHeaders request);
          isJsonContent = (case contentType of None \<Rightarrow> False
                           | Some ct \<Rightarrow> str_includes ct ''application/json'');
          bodySaysGraphQL =
            (truthy_string (requestBody request) \<and> isJsonContent \<and>
             (let parsed = safeJsonParse JSON_parse (the (requestBody request)) in
              is_object parsed \<and>
              (let hasQuery = (case get_query parsed of Some (JStr _) \<Rightarrow> True | _ \<Rightarrow> False);
                   hasMutation = (case get_query parsed of
                                    Some (JStr q) \<Rightarrow> startsWith (trim q) ''mutation''
                                  | _ \<Rightarrow> False)
               in hasQuery \<or> hasMutation)))
      in if bodySaysGraphQL then True
         else if hasGraphQLUrl \<and> req_method request = ''POST'' \<and> isJsonContent then True
         else False)"

text \<open>The classification in the words of the specification.\<close>

definition body_has_query :: "json_parser \<Rightarrow> string option \<Rightarrow> bool" where
  \<comment> \<open>the body parses as JSON containing a string-typed \<open>query\<close> field\<close>
  "body_has_query JSON_parse b =
     (case b of None \<Rightarrow> False
      | Some s \<Rightarrow> (case JSON_parse s of
                    Some (JObj kvs) \<Rightarrow> (case map_of kvs ''query'' of Some (JStr _) \<Rightarrow> True | _ \<Rightarrow> False)
                  | _ \<Rightarrow> False))"

definition json_content_type :: "headers \<Rightarrow> bool" where
  "json_content_type h =
     (case content_type_of h of None \<Rightarrow> False | Some ct \<Rightarrow> str_includes ct ''application/json'')"

definition GraphQL_spec :: "json_parser \<Rightarrow> ('n, 'a) NetworkRequest_scheme \<Rightarrow> bool" where
  "GraphQL_spec JSON_parse r =
     (str_includes (url r) ''/graphql''
      \<or> body_has_query JSON_parse (requestBody r)
      \<or> (req_method r = ''POST'' \<and> json_content_type (requestHeaders r)
          \<and> str_includes (url r) ''/graphql''))"

definition json_table :: "(string \<times> json) list \<Rightarrow> json_parser" where
  \<comment> \<open>\<open>JSON.parse\<close> tabulated on the texts an example uses\<close>
  "json_table t = map_of t"

section \<open>Body loader and HAR parsing (\<open>lib/network/parser\<close>)\<close>

definition MAX_BODY_SIZE :: int where
  "MAX_BODY_SIZE = 500 * 1024"

record PostData =
  pd_text :: "string option"
  pd_params :: "(string \<times> string option) list option"

text \<open>
  A HAR entry as \<open>parseHarEntry\<close> reads it. \<open>getContent\<close> is what the callback of
  \<open>entry.getContent\<close> receives: \<open>None\<close> for \<open>undefined\<close>, which makes the promise reject,
  and \<open>Some s\<close> for a content \<open>s\<close> (\<open>null\<close> counting as the empty string).
  Optional fields are \<open>None\<close> when absent.
\<close>

record 'n HarEntry =
  entry_method :: string
  entry_url :: string
  entry_requestHeaders :: "(string \<times> string) list"
  entry_postData :: "PostData option"
  entry_time :: "'n option"
  entry_status :: int
  entry_statusText :: string
  entry_responseHeaders :: "(string \<times> string) list"
  entry_content_size :: "int option"
  entry_content_mimeType :: "string option"
  entry_resourceType :: "string option"
  getContent :: "string option"

fun assign_own :: "string \<Rightarrow> string \<Rightarrow> headers \<Rightarrow> headers" where
  \<comment> \<open>creating or overwriting an own property: an existing key keeps its position\<close>
  "assign_own k v [] = [(k, v)]"
| "assign_own k v ((k', v') # rest) =
     (if k' = k then (k, v) # rest else (k', v') # assign_own k v rest)"

definition record_set :: "string \<Rightarrow> string \<Rightarrow> headers \<Rightarrow> headers" where
  \<comment> \<open>\<open>obj[key] = v\<close> on an object that started as \<open>{}\<close>, \<open>v\<close> a string: the key
      \<open>__proto__\<close> reaches the setter of \<open>Object.prototype\<close>, which ignores a string, so
      nothing is stored; every other key becomes an own property\<close>
  "record_set k v obj = (if k = ''__proto__'' then obj else assign_own k v obj)"

definition parseHeaders :: "(string \<times> string) list \<Rightarrow> headers" where
  "parseHeaders hs = foldl (\<lambda>result (n, v). record_set n v result) [] hs"

fun join :: "string \<Rightarrow> string list \<Rightarrow> string" where
  \<comment> \<open>\<open>parts.join(sep)\<close>\<close>
  "join sep [] = []"
| "join sep [x] = x"
| "join sep (x # y # ys) = x @ sep @ join sep (y # ys)"

definition getRequestBody :: "'n HarEntry \<Rightarrow> string option" where
  "getRequestBody entry =
     (case entry_postData entry of
        None \<Rightarrow> None
      | Some postData \<Rightarrow>
          if truthy_string (pd_text postData) then pd_text postData
          else (case pd_params postData of
                  None \<Rightarrow> None
                | Some params \<Rightarrow>
                    if length params > 0
                    then Some (join ''&''
                           (map (\<lambda>(n, v). n @ ''='' @ (if truthy_string v then the v else [])) params))
                    else None))"

definition utf8_size :: "string \<Rightarrow> int" where
  \<comment> \<open>\<open>new Blob([s]).size\<close> for code units below 256\<close>
  "utf8_size s = sum_list (map (\<lambda>c. if (of_char c :: nat) < 128 then 1 else 2) s)"

definition getRequestBodySize :: "'n HarEntry \<Rightarrow> int" where
  "getRequestBodySize entry =
     (case entry_postData entry of
        None \<Rightarrow> 0
      | Some postData \<Rightarrow>
          if truthy_string (pd_text postData) then utf8_size (the (pd_text postData)) else 0)"

definition getResourceType :: "'n HarEntry \<Rightarrow> string" where
  "getResourceType entry =
     (if truthy_string (entry_resourceType entry) then the (entry_resourceType entry)
      else
        let mimeType = (case entry_content_mimeType entry of None \<Rightarrow> [] | Some m \<Rightarrow> m) in
        if str_includes mimeType ''json'' then ''fetch''
        else if str_includes mimeType ''javascript'' then ''script''
        else if str_includes mimeType ''css'' then ''stylesheet''
        else if str_includes mimeType ''html'' then ''document''
        else if str_includes mimeType ''image'' then ''image''
        else if str_includes mimeType ''font'' then ''font''
        else ''other'')"

definition isWebSocketRequest :: "'n HarEntry \<Rightarrow> bool" where
  "isWebSocketRequest entry =
     (case find (\<lambda>(n, _). toLowerCase n = ''upgrade'') (entry_requestHeaders entry) of
        None \<Rightarrow> False
      | Some (_, v) \<Rightarrow> toLowerCase v = ''websocket'')"

definition parseHarEntry ::
  "json_parser \<Rightarrow> string \<Rightarrow> ('n::zero) HarEntry \<Rightarrow> 'n NetworkRequest" where
  \<comment> \<open>\<open>new_id\<close> is the result of \<open>generateId()\<close>\<close>
  "parseHarEntry JSON_parse new_id entry =
     (let responseBodySize = (case entry_content_size entry of None \<Rightarrow> 0 | Some n \<Rightarrow> n);
          shouldLoadBody = (responseBodySize \<le> MAX_BODY_SIZE);
          (body, hasFull) =
            (if shouldLoadBody then
               (case getContent entry of
                  Some content \<Rightarrow> (Some content, True)
                | None \<Rightarrow> (None, False))
             else (None, False));
          loader = (if \<not> shouldLoadBody then Some (Loader (getContent entry)) else None);
          request =
            \<lparr>req_id = new_id,
             req_method = entry_method entry,
             url = entry_url entry,
             status = entry_status entry,
             statusText = entry_statusText entry,
             duration = (case entry_time entry of None \<Rightarrow> 0 | Some t \<Rightarrow> t),
             requestHeaders = parseHeaders (entry_requestHeaders entry),
             requestBody = getRequestBody entry,
             requestBodySize = getRequestBodySize entry,
             responseHeaders = parseHeaders (entry_responseHeaders entry),
             responseBody = body,
             responseBodySize = responseBodySize,
             responseMimeType = (case entry_content_mimeType entry of None \<Rightarrow> [] | Some m \<Rightarrow> m),
             isGraphQL = False,
             isWebSocket = isWebSocketRequest entry,
             isReplayed = False,
             resourceType = getResourceType entry,
             hasFullResponseBody = hasFull,
             getFullResponseBody = loader\<rparr>
      in request\<lparr>isGraphQL := isGraphQLRequest JSON_parse request\<rparr>)"

definition sample_entry :: "int \<Rightarrow> string option \<Rightarrow> int HarEntry" where
  \<comment> \<open>a GET entry with the given declared response size and content\<close>
  "sample_entry n content =
     \<lparr>entry_method = ''GET'', entry_url = ''https://x/big'', entry_requestHeaders = [],
      entry_postData = None, entry_time = Some 12, entry_status = 200, entry_statusText = ''OK'',
      entry_responseHeaders = [], entry_content_size = Some n,
      entry_content_mimeType = Some ''text/plain'', entry_resourceType = None,
      getContent = content\<rparr>"

section \<open>Replay executor (\<open>lib/network/replay\<close>)\<close>

record ReplayOptions =
  ro_method :: string
  ro_url :: string
  ro_headers :: headers
  ro_body :: "string option"

definition FORBIDDEN_HEADERS :: "string set" where
  "FORBIDDEN_HEADERS =
     {''accept-charset'', ''accept-encoding'', ''access-control-request-headers'',
      ''access-control-request-method'', ''connection'', ''content-length'', ''cookie'',
      ''cookie2'', ''date'', ''dnt'', ''expect'', ''host'', ''keep-alive'', ''origin'',
      ''referer'', ''te'', ''trailer'', ''transfer-encoding'', ''upgrade'', ''via''}"

fun filterHeaders_loop :: "headers \<Rightarrow> headers \<Rightarrow> headers" where
  \<comment> \<open>the loop over \<open>Object.entries(headers)\<close>, \<open>filtered\<close> being the object built so far\<close>
  "filterHeaders_loop filtered [] = filtered"
| "filterHeaders_loop filtered ((key, v) # rest) =
     (let lowerKey = toLowerCase key in
      if lowerKey \<notin> FORBIDDEN_HEADERS \<and> \<not> startsWith lowerKey ''sec-''
      then filterHeaders_loop (record_set key v filtered) rest
      else filterHeaders_loop filtered rest)"

definition filterHeaders :: "headers \<Rightarrow> headers" where
  "filterHeaders hs = filterHeaders_loop [] hs"

text \<open>The arguments of the \<open>fetch\<close> call; \<open>fo_body = None\<close> is \<open>undefined\<close> or \<open>null\<close>: no body.\<close>

record FetchCall =
  fc_url :: string
  fo_method :: string
  fo_headers :: headers
  fo_body :: "string option"

definition replay_fetch_call :: "(string \<Rightarrow> bool) \<Rightarrow> ReplayOptions \<Rightarrow> string + FetchCall" where
  \<comment> \<open>\<open>replayRequest\<close> up to its \<open>fetch\<close>: \<open>Inl\<close> is the failure returned without any call;
      \<open>valid_url u\<close> says that \<open>new URL(u)\<close> does not throw\<close>
  "replay_fetch_call valid_url options =
     (if \<not> valid_url (ro_url options) then Inl ''Invalid URL''
      else Inr \<lparr>fc_url = ro_url options,
                fo_method = ro_method options,
                fo_headers = filterHeaders (ro_headers options),
                fo_body = (if toUpperCase (ro_method options) \<in> set [''POST'', ''PUT'', ''PATCH'']
                           then ro_body options else None)\<rparr>)"



definition replay_isGraphQLRequest :: "json_parser \<Rightarrow> string \<Rightarrow> string option \<Rightarrow> bool" where
  \<comment> \<open>the file-local \<open>isGraphQLRequest(url, body)\<close> of \<open>replay.ts\<close>, which sets the flag of a
      replayed record; \<open>"query" in parsed\<close> throws on a primitive or \<open>null\<close>, which is caught\<close>
  "replay_isGraphQLRequest JSON_parse u body =
     (if str_includes u ''/graphql'' then True
      else if truthy_string body then
        (case JSON_parse (the body) of
           None \<Rightarrow> False
         | Some (JObj kvs) \<Rightarrow> ''query'' \<in> fst ` set kvs \<or> ''mutation'' \<in> fst ` set kvs
         | Some (JArr _) \<Rightarrow> False
         | Some _ \<Rightarrow> False)
      else False)"

subsection \<open>Example inputs\<close>

definition graphql_get :: "int NetworkRequest" where
  "graphql_get = (sample_request ''a'')\<lparr>url := ''https://x/graphql''\<rparr>"

definition graphql_post :: "int NetworkRequest" where
  "graphql_post = (sample_request ''b'')
     \<lparr>req_method := ''POST'', url := ''https://x/api'',
      requestHeaders := [(''Content-Type'', ''application/json'')],
      requestBody := Some ''{\"query\":\"{ me }\"}''\<rparr>"

definition declared_size :: "'n HarEntry \<Rightarrow> int" where
  "declared_size entry = (case entry_content_size entry of None \<Rightarrow> 0 | Some n \<Rightarrow> n)"


definition graphql_get_entry :: "int HarEntry" where
  \<comment> \<open>a captured GET of \<open>https://x/graphql\<close> without headers and without a body\<close>
  "graphql_get_entry = (sample_entry 2 (Some ''{}''))\<lparr>entry_url := ''https://x/graphql''\<rparr>"

definition proto_replay :: ReplayOptions where
  \<comment> \<open>a header object with an own key \<open>__proto__\<close>, as \<open>JSON.parse\<close> can build one\<close>
  "proto_replay = \<lparr>ro_method = ''GET'', ro_url = ''https://api.example.com/'',
     ro_headers = [(''__proto__'', ''x''), (''X-A'', ''1'')], ro_body = None\<rparr>"

section \<open>Context builder (\<open>lib/llm/context\<close>)\<close>

definition NL :: string where
  "NL = [CHR 0x0A]"

fun indexOf_from :: "string \<Rightarrow> string \<Rightarrow> nat \<Rightarrow> int" where
  "indexOf_from needle [] i = (if needle = [] then int i else - 1)"
| "indexOf_from needle (c # cs) i =
     (if prefix needle (c # cs) then int i else indexOf_from needle cs (Suc i))"

definition indexOf :: "string \<Rightarrow> string \<Rightarrow> int" where
  \<comment> \<open>\<open>s.indexOf(needle)\<close>: the first occurrence, or \<open>-1\<close>\<close>
  "indexOf s needle = indexOf_from needle s 0"

fun lastIndexOf_from :: "string \<Rightarrow> string \<Rightarrow> nat \<Rightarrow> int" where
  "lastIndexOf_from needle [] i = (if needle = [] then int i else - 1)"
| "lastIndexOf_from needle (c # cs) i =
     (let later = lastIndexOf_from needle cs (Suc i) in
      if later \<ge> 0 then later else if prefix needle (c # cs) then int i else - 1)"

definition lastIndexOf :: "string \<Rightarrow> string \<Rightarrow> int" where
  \<comment> \<open>\<open>s.lastIndexOf(needle)\<close>: the last occurrence, or \<open>-1\<close>\<close>
  "lastIndexOf s needle = lastIndexOf_from needle s 0"

definition estimateTokenCount :: "string \<Rightarrow> int" where
  \<comment> \<open>\<open>Math.ceil(text.length / 4)\<close>\<close>
  "estimateTokenCount text = (int (length text) + 3) div 4"

definition MAX_CONTEXT_TOKENS :: int where
  "MAX_CONTEXT_TOKENS = 50000"

text \<open>
  \<open>formatDuration\<close> and \<open>formatBytes\<close> round floating-point numbers (\<open>toFixed\<close>,
  \<open>Math.log\<close>), and \<open>formatBody\<close> pretty-prints through the platform's \<open>JSON\<close>: the three
  are parameters. \<open>JSON_pretty body\<close> is \<open>JSON.stringify(JSON.parse(body), null, 2)\<close>, with
  \<open>None\<close> when parsing throws.
\<close>

record 'n Formatters =
  formatDuration :: "'n \<Rightarrow> string"
  formatBytes :: "int \<Rightarrow> string"
  JSON_pretty :: "string \<Rightarrow> string option"

fun bump :: "'k \<Rightarrow> ('k \<times> int) list \<Rightarrow> ('k \<times> int) list" where
  \<comment> \<open>\<open>m.set(k, (m.get(k) || 0) + 1)\<close> on a \<open>Map\<close>, which keeps insertion order\<close>
  "bump k [] = [(k, 1)]"
| "bump k ((k', c) # rest) = (if k' = k then (k, c + 1) # rest else (k', c) # bump k rest)"

record 'n summary_acc =
  methods :: "(string \<times> int) list"
  statusCodes :: "(int \<times> int) list"
  totalDuration :: 'n
  totalSize :: int
  graphqlCount :: int
  websocketCount :: int
  errorCount :: int

definition summary_step ::
  "('n::plus) summary_acc \<Rightarrow> ('n, 'a) SanitizedRequest_scheme \<Rightarrow> 'n summary_acc" where
  \<comment> \<open>the body of \<open>for (const req of requests)\<close>\<close>
  "summary_step acc req =
     \<lparr>methods = bump (req_method req) (methods acc),
      statusCodes = bump (status req) (statusCodes acc),
      totalDuration = totalDuration acc + duration req,
      totalSize = totalSize acc + responseBodySize req,
      graphqlCount = (if isGraphQL req then graphqlCount acc + 1 else graphqlCount acc),
      websocketCount = (if isWebSocket req then websocketCount acc + 1 else websocketCount acc),
      errorCount = (if status req \<ge> 400 then errorCount acc + 1 else errorCount acc)\<rparr>"

definition buildSummarySection ::
  "('n::{zero,plus}) Formatters \<Rightarrow> ('n, 'a) SanitizedRequest_scheme list \<Rightarrow> string" where
  "buildSummarySection F reqs =
     (let acc = foldl summary_step
                  \<lparr>methods = [], statusCodes = [], totalDuration = 0, totalSize = 0,
                   graphqlCount = 0, websocketCount = 0, errorCount = 0\<rparr> reqs;
          methodsStr = join '', '' (map (\<lambda>(m, c). m @ '': '' @ show_int c) (methods acc));
          statusStr = join '', ''
                        (map (\<lambda>(s, c). show_int s @ '': '' @ show_int c)
                           (sort_key fst (statusCodes acc)));
          summary = ''# Request Summary'' @ NL @ NL
            @ ''- **Total Requests**: '' @ show_int (int (length reqs)) @ NL
            @ ''- **Methods**: '' @ methodsStr @ NL
            @ ''- **Status Codes**: '' @ statusStr @ NL
            @ ''- **Total Duration**: '' @ formatDuration F (totalDuration acc) @ NL
            @ ''- **Total Response Size**: '' @ formatBytes F (totalSize acc);
          summary1 = (if errorCount acc > 0
                      then summary @ NL @ ''- **Errors**: '' @ show_int (errorCount acc)
                      else summary);
          summary2 = (if graphqlCount acc > 0
                      then summary1 @ NL @ ''- **GraphQL Requests**: '' @ show_int (graphqlCount acc)
                      else summary1);
          summary3 = (if websocketCount acc > 0
                      then summary2 @ NL @ ''- **WebSocket Connections**: ''
                             @ show_int (websocketCount acc)
                      else summary2)
      in summary3)"

definition getBodyLanguage :: "string \<Rightarrow> string" where
  "getBodyLanguage contentType =
     (if contentType = [] then []
      else
        let ct = toLowerCase contentType in
        if str_includes ct ''json'' then ''json''
        else if str_includes ct ''xml'' then ''xml''
        else if str_includes ct ''html'' then ''html''
        else if str_includes ct ''javascript'' then ''javascript''
        else if str_includes ct ''css'' then ''css''
        else if str_includes ct ''graphql'' then ''graphql''
        else [])"

definition MAX_BODY_LENGTH :: int where
  "MAX_BODY_LENGTH = 10000"

definition formatBody :: "'n Formatters \<Rightarrow> string \<Rightarrow> int \<Rightarrow> string" where
  "formatBody F body0 originalSize =
     (let body = (case JSON_pretty F body0 of Some pretty \<Rightarrow> pretty | None \<Rightarrow> body0) in
      if int (length body) > MAX_BODY_LENGTH then
        let truncated = js_slice body 0 MAX_BODY_LENGTH in
        truncated @ NL @ NL @ ''... [Truncated - original size: ''
          @ formatBytes F originalSize @ '']''
      else body)"

definition header_lines :: "headers \<Rightarrow> string list" where
  "header_lines hs = map (\<lambda>(key, v). key @ '': '' @ v) hs"

definition buildRequestSection ::
  "'n Formatters \<Rightarrow> ('n, 'a) SanitizedRequest_scheme \<Rightarrow> int \<Rightarrow> string" where
  "buildRequestSection F request index =
     (let lines0 =
            [''# Request '' @ show_int index @ '': '' @ req_method request @ '' '' @ url request,
             [],
             ''## Basic Info'',
             ''- **Status**: '' @ show_int (status request) @ '' '' @ statusText request,
             ''- **Duration**: '' @ formatDuration F (duration request),
             ''- **Response Size**: '' @ formatBytes F (responseBodySize request)]
            @ (if isGraphQL request then [''- **Type**: GraphQL''] else [])
            @ (if isWebSocket request then [''- **Type**: WebSocket''] else [])
            @ [[]];
          reqHeaders = requestHeaders request;
          lines1 = lines0
            @ (if length reqHeaders > 0
               then [''## Request Headers'', ''```''] @ header_lines reqHeaders @ [''```'', []]
               else []);
          lines2 = lines1
            @ (if truthy_string (requestBody request)
               then
                 let bodyLanguage =
                       getBodyLanguage
                         (case map_of (requestHeaders request) ''content-type'' of
                            Some ct \<Rightarrow> ct | None \<Rightarrow> [])
                 in [''## Request Body'', ''```'' @ bodyLanguage,
                     formatBody F (the (requestBody request)) (requestBodySize request),
                     ''```'', []]
               else []);
          resHeaders = responseHeaders request;
          lines3 = lines2
            @ (if length resHeaders > 0
               then [''## Response Headers'', ''```''] @ header_lines resHeaders @ [''```'', []]
               else []);
          lines4 = lines3
            @ (if truthy_string (responseBody request)
               then
                 let bodyLanguage = getBodyLanguage (responseMimeType request)
                 in [''## Response Body'', ''```'' @ bodyLanguage,
                     formatBody F (the (responseBody request)) (responseBodySize request),
                     ''```'']
               else [])
      in join NL lines4)"

definition section_separator :: string where
  \<comment> \<open>the text the sections are joined with\<close>
  "section_separator = NL @ NL @ ''---'' @ NL @ NL"

definition notice_context :: string where
  "notice_context = NL @ NL @ ''[Context truncated due to size]''"

definition notice_details :: string where
  "notice_details = NL @ NL @ ''[Request details truncated due to size]''"

definition notice_some :: string where
  "notice_some = NL @ NL @ ''[Some requests truncated due to size]''"

definition truncateContext :: "string \<Rightarrow> int \<Rightarrow> string" where
  "truncateContext context maxTokens =
     (let maxChars = maxTokens * 4 in
      if int (length context) \<le> maxChars then context
      else
        let summaryEnd = indexOf context section_separator in
        if summaryEnd = - 1 then js_slice context 0 maxChars @ notice_context
        else
          let summary = js_slice context 0 summaryEnd;
              remaining = js_slice_from context summaryEnd;
              remainingMaxChars = maxChars - int (length summary) - 50
          in
          if remainingMaxChars \<le> 0 then summary @ notice_details
          else
            let truncatedRemaining = js_slice remaining 0 remainingMaxChars;
                lastRequestBoundary = lastIndexOf truncatedRemaining section_separator
            in
            if lastRequestBoundary > 0
            then summary @ js_slice truncatedRemaining 0 lastRequestBoundary @ notice_some
            else summary @ truncatedRemaining @ notice_context)"

definition context_sections ::
  "('n::{zero,plus}) Formatters \<Rightarrow> ('n, 'a) SanitizedRequest_scheme list \<Rightarrow> string list" where
  \<comment> \<open>the array \<open>sections\<close>: the summary, then one section per request, numbered from 1\<close>
  "context_sections F reqs =
     buildSummarySection F reqs
       # map (\<lambda>(i, r). buildRequestSection F r (int i + 1)) (enumerate 0 reqs)"

definition untruncated_context ::
  "('n::{zero,plus}) Formatters \<Rightarrow> ('n, 'a) SanitizedRequest_scheme list \<Rightarrow> string" where
  "untruncated_context F reqs = join section_separator (context_sections F reqs)"

definition buildContext ::
  "('n::{zero,plus}) Formatters \<Rightarrow> ('n, 'a) SanitizedRequest_scheme list \<Rightarrow> string" where
  "buildContext F reqs =
     (if length reqs = 0 then ''No requests provided.''
      else
        let context = untruncated_context F reqs;
            estimatedTokens = estimateTokenCount context
        in if estimatedTokens > MAX_CONTEXT_TOKENS
           then truncateContext context MAX_CONTEXT_TOKENS
           else context)"

subsection \<open>What the claim about truncation says\<close>

definition truncation_notices :: "string list" where
  "truncation_notices = [notice_context, notice_details, notice_some]"

definition whole_sections_kept :: "string list \<Rightarrow> string \<Rightarrow> bool" where
  \<comment> \<open>the document is the summary and some of the leading request sections, each in full,
      followed by a truncation notice\<close>
  "whole_sections_kept sections doc =
     list_ex (\<lambda>k. list_ex (\<lambda>notice. doc = join section_separator (take k sections) @ notice)
                     truncation_notices)
       [1 ..< Suc (length sections)]"

definition separator_at :: "string \<Rightarrow> nat \<Rightarrow> bool" where
  \<comment> \<open>the section separator occurs in \<open>s\<close> at offset \<open>k\<close>\<close>
  "separator_at s k = prefix section_separator (drop k s)"

subsection \<open>Example inputs\<close>

definition zero_formatters :: "int Formatters" where
  \<comment> \<open>the formatters at the values the examples use: \<open>formatDuration(0)\<close> is \<open>0ms\<close>,
      \<open>formatBytes(0)\<close> is \<open>0 B\<close>, and no body is present to be parsed\<close>
  "zero_formatters =
     \<lparr>formatDuration = (\<lambda>_. ''0ms''), formatBytes = (\<lambda>_. ''0 B''), JSON_pretty = (\<lambda>_. None)\<rparr>"

definition long_url :: string where
  "long_url = replicate 200000 CHR ''a''"

definition long_request :: "int NetworkRequest" where
  \<comment> \<open>a GET, status 200, duration 0, no headers, no bodies, with a URL of 200000 characters\<close>
  "long_request = (sample_request ''r1'')\<lparr>url := long_url\<rparr>"

definition long_head :: string where
  "long_head = ''# Request 1: GET ''"

definition long_tail :: string where
  "long_tail = NL @ NL @ ''## Basic Info'' @ NL @ ''- **Status**: 200 OK'' @ NL
     @ ''- **Duration**: 0ms'' @ NL @ ''- **Response Size**: 0 B'' @ NL"

definition pair_requests :: "int NetworkRequest list" where
  \<comment> \<open>a short request followed by the request with the long URL\<close>
  "pair_requests = [sample_request ''r0'', long_request]"

definition short_section :: string where
  "short_section = buildRequestSection zero_formatters (sample_request ''r0'') 1"

definition long_head2 :: string where
  "long_head2 = ''# Request 2: GET ''"

section \<open>Capture store: FIFO admission and the side tables\<close>

lemma js_slice_take: "0 \<le> k \<Longrightarrow> js_slice xs 0 k = take (nat k) xs"
  by (simp add: js_slice_def Let_def min_def)

lemma js_slice_from_last: "0 < m \<Longrightarrow> js_slice_from xs (- m) = drop (length xs - nat m) xs"
  by (auto simp add: js_slice_from_def js_slice_def Let_def max_def nat_diff_distrib intro: arg_cong2[where f=drop])

lemma nat_Suc_diff: "0 < m \<Longrightarrow> nat (1 + int n - m) = Suc n - nat m"
  by linarith

lemma drop_snoc_window:
  assumes "0 < c"
  shows "drop (Suc (length (drop (length xs - c) xs)) - c) (drop (length xs - c) xs @ [r])
       = drop (Suc (length xs) - c) (xs @ [r])"
proof (cases "length xs \<le> c")
  case True
  then show ?thesis by simp
next
  case False
  then have "Suc (length xs) - c = Suc (length xs - c)" by simp
  with False assms show ?thesis by simp
qed

lemma addRequest_requests:
  assumes "\<not> isPaused s" "0 < maxRequests s"
  shows "requests (addRequest r s)
       = drop (Suc (length (requests s)) - nat (maxRequests s)) (requests s @ [r])"
  using assms by (auto simp add: addRequest_def Let_def js_slice_from_last)

lemma addRequest_favorites:
  assumes "\<not> isPaused s" "0 < maxRequests s"
  shows "favorites (addRequest r s)
       = favorites s - req_id ` set (take (Suc (length (requests s)) - nat (maxRequests s)) (requests s @ [r]))"
  using assms by (auto simp add: addRequest_def Let_def js_slice_take nat_Suc_diff)

lemma addRequest_selected:
  assumes "\<not> isPaused s" "0 < maxRequests s"
  shows "selected (addRequest r s)
       = selected s - req_id ` set (take (Suc (length (requests s)) - nat (maxRequests s)) (requests s @ [r]))"
  using assms by (auto simp add: addRequest_def Let_def js_slice_take nat_Suc_diff)

lemma addRequest_frame:
  "isPaused (addRequest r s) = isPaused s" "maxRequests (addRequest r s) = maxRequests s"
  "searchQuery (addRequest r s) = searchQuery s"
  by (simp_all add: addRequest_def Let_def)

lemma admit_all_snoc: "admit_all (rs @ [r]) s = addRequest r (admit_all rs s)"
  by (simp add: admit_all_def)

lemma admit_all_frame:
  "isPaused (admit_all rs s) = isPaused s" "maxRequests (admit_all rs s) = maxRequests s"
  by (induction rs rule: rev_induct) (simp_all add: admit_all_snoc addRequest_frame, simp_all add: admit_all_def)

lemma admit_all_requests:
  assumes "\<not> isPaused s" "0 < maxRequests s" "rs \<noteq> [] \<or> int (length (requests s)) \<le> maxRequests s"
  shows "requests (admit_all rs s)
       = drop (length (requests s @ rs) - nat (maxRequests s)) (requests s @ rs)"
  using assms(3)
proof (induction rs rule: rev_induct)
  case Nil
  then show ?case by (simp add: admit_all_def)
next
  case (snoc r rs)
  let ?c = "nat (maxRequests s)"
  let ?t = "admit_all rs s"
  have cpos: "0 < ?c" using assms(2) by simp
  have step: "requests (admit_all (rs @ [r]) s)
       = drop (Suc (length (requests ?t)) - ?c) (requests ?t @ [r])"
    using addRequest_requests[of ?t r] assms(1,2)
    by (simp add: admit_all_snoc admit_all_frame)
  show ?case
  proof (cases "rs = [] \<and> \<not> int (length (requests s)) \<le> maxRequests s")
    case True
    then have "requests ?t = requests s" by (simp add: admit_all_def)
    with step True show ?thesis by simp
  next
    case False
    then have ih: "requests ?t = drop (length (requests s @ rs) - ?c) (requests s @ rs)"
      using snoc.IH by blast
    have "requests (admit_all (rs @ [r]) s)
        = drop (Suc (length (drop (length (requests s @ rs) - ?c) (requests s @ rs))) - ?c)
            (drop (length (requests s @ rs) - ?c) (requests s @ rs) @ [r])"
      unfolding step ih ..
    also have "\<dots> = drop (Suc (length (requests s @ rs)) - ?c) ((requests s @ rs) @ [r])"
      by (rule drop_snoc_window[OF cpos])
    finally show ?thesis by simp
  qed
qed

lemma take_snoc_window:
  assumes "0 < c"
  shows "take (Suc (length xs) - c) (xs @ [r])
       = take (length xs - c) xs
         @ take (Suc (length (drop (length xs - c) xs)) - c) (drop (length xs - c) xs @ [r])"
proof (cases "length xs < c")
  case True
  then show ?thesis by simp
next
  case False
  then have e: "Suc (length xs) - c = (length xs - c) + 1" by simp
  have "take ((length xs - c) + 1) (xs @ [r])
      = take (length xs - c) (xs @ [r]) @ take 1 (drop (length xs - c) (xs @ [r]))"
    by (rule take_add)
  with False assms show ?thesis unfolding e by simp
qed

lemma admit_all_favorites:
  assumes "\<not> isPaused s" "0 < maxRequests s" "rs \<noteq> [] \<or> int (length (requests s)) \<le> maxRequests s"
  shows "favorites (admit_all rs s)
       = favorites s - req_id ` set (take (length (requests s @ rs) - nat (maxRequests s)) (requests s @ rs))"
    and "selected (admit_all rs s)
       = selected s - req_id ` set (take (length (requests s @ rs) - nat (maxRequests s)) (requests s @ rs))"
  using assms(3)
proof (induction rs rule: rev_induct)
  case Nil
  {
    case 1 then show ?case by (simp add: admit_all_def)
  next
    case 2 then show ?case by (simp add: admit_all_def)
  }
next
  case (snoc r rs)
  let ?c = "nat (maxRequests s)"
  let ?t = "admit_all rs s"
  let ?all = "requests s @ rs"
  have cpos: "0 < ?c" using assms(2) by simp
  have stepF: "favorites (admit_all (rs @ [r]) s)
       = favorites ?t - req_id ` set (take (Suc (length (requests ?t)) - ?c) (requests ?t @ [r]))"
    using addRequest_favorites[of ?t r] assms(1,2)
    by (simp add: admit_all_snoc admit_all_frame)
  have stepS: "selected (admit_all (rs @ [r]) s)
       = selected ?t - req_id ` set (take (Suc (length (requests ?t)) - ?c) (requests ?t @ [r]))"
    using addRequest_selected[of ?t r] assms(1,2)
    by (simp add: admit_all_snoc admit_all_frame)
  have split: "set (take (Suc (length ?all) - ?c) (?all @ [r]))
      = set (take (length ?all - ?c) ?all)
        \<union> set (take (Suc (length (drop (length ?all - ?c) ?all)) - ?c) (drop (length ?all - ?c) ?all @ [r]))"
    by (subst take_snoc_window[OF cpos]) (rule set_append)
  {
    case 1
    show ?case
    proof (cases "rs = [] \<and> \<not> int (length (requests s)) \<le> maxRequests s")
      case True
      then have "?t = s" by (simp add: admit_all_def)
      with stepF True show ?thesis by simp
    next
      case False
      then have ok: "rs \<noteq> [] \<or> int (length (requests s)) \<le> maxRequests s" by blast
      have cur: "requests ?t = drop (length ?all - ?c) ?all"
        by (rule admit_all_requests[OF assms(1,2) ok])
      have ih: "favorites ?t = favorites s - req_id ` set (take (length ?all - ?c) ?all)"
        by (rule snoc.IH(1)[OF ok])
      have "favorites (admit_all (rs @ [r]) s)
          = favorites s - req_id ` set (take (Suc (length ?all) - ?c) (?all @ [r]))"
        unfolding stepF ih cur split by blast
      then show ?thesis by simp
    qed
  next
    case 2
    show ?case
    proof (cases "rs = [] \<and> \<not> int (length (requests s)) \<le> maxRequests s")
      case True
      then have "?t = s" by (simp add: admit_all_def)
      with stepS True show ?thesis by simp
    next
      case False
      then have ok: "rs \<noteq> [] \<or> int (length (requests s)) \<le> maxRequests s" by blast
      have cur: "requests ?t = drop (length ?all - ?c) ?all"
        by (rule admit_all_requests[OF assms(1,2) ok])
      have ih: "selected ?t = selected s - req_id ` set (take (length ?all - ?c) ?all)"
        by (rule snoc.IH(2)[OF ok])
      have "selected (admit_all (rs @ [r]) s)
          = selected s - req_id ` set (take (Suc (length ?all) - ?c) (?all @ [r]))"
        unfolding stepS ih cur split by blast
      then show ?thesis by simp
    qed
  }
qed

lemma js_slice_cover:
  assumes "m < int (length xs)"
  shows "set xs \<subseteq> set (js_slice xs 0 (int (length xs) - m)) \<union> set (js_slice_from xs (- m))"
proof (cases "0 < m")
  case True
  have "js_slice xs 0 (int (length xs) - m) = take (length xs - nat m) xs"
    using assms True by (simp add: js_slice_take nat_diff_distrib)
  moreover have "js_slice_from xs (- m) = drop (length xs - nat m) xs"
    using True by (rule js_slice_from_last)
  moreover have "set xs = set (take (length xs - nat m) xs) \<union> set (drop (length xs - nat m) xs)"
    by (metis append_take_drop_id set_append)
  ultimately show ?thesis by simp
next
  case False
  then have "js_slice xs 0 (int (length xs) - m) = xs"
    by (simp add: js_slice_def Let_def min_def)
  then show ?thesis by simp
qed

lemma js_slice_subset: "set (js_slice xs a b) \<subseteq> set xs"
  unfolding js_slice_def Let_def by (meson set_take_subset set_drop_subset subset_trans)

lemma js_slice_from_subset: "set (js_slice_from xs a) \<subseteq> set xs"
  unfolding js_slice_from_def by (rule js_slice_subset)

lemma purge_subset:
  assumes "A \<subseteq> f ` X" and "X \<subseteq> R \<union> K"
  shows "{i \<in> A. i \<notin> f ` R} \<subseteq> f ` K"
  using assms by blast

lemma addRequest_side_tables:
  assumes "side_tables_ok s"
  shows "side_tables_ok (addRequest r s)"
proof (cases "isPaused s")
  case True
  with assms show ?thesis by (simp add: addRequest_def)
next
  case False
  let ?new = "requests s @ [r]"
  show ?thesis
  proof (cases "int (length ?new) > maxRequests s")
    case over: True
    have cover: "set ?new \<subseteq> set (js_slice ?new 0 (int (length ?new) - maxRequests s))
                          \<union> set (js_slice_from ?new (- maxRequests s))"
      using over by (intro js_slice_cover) simp
    have old: "favorites s \<subseteq> req_id ` set ?new" "selected s \<subseteq> req_id ` set ?new"
      using assms by (auto simp add: side_tables_ok_def present_ids_def)
    have st: "addRequest r s
        = s\<lparr>requests := js_slice_from ?new (- maxRequests s),
             favorites := {i \<in> favorites s. i \<notin> req_id ` set (js_slice ?new 0 (int (length ?new) - maxRequests s))},
             selected := {i \<in> selected s. i \<notin> req_id ` set (js_slice ?new 0 (int (length ?new) - maxRequests s))}\<rparr>"
      using False over by (simp add: addRequest_def Let_def)
    show ?thesis
      unfolding st side_tables_ok_def present_ids_def
      using purge_subset[OF old(1) cover] purge_subset[OF old(2) cover] by simp
  next
    case under: False
    then have "addRequest r s = s\<lparr>requests := ?new\<rparr>"
      using False by (simp add: addRequest_def Let_def)
    with assms show ?thesis
      by (auto simp add: side_tables_ok_def present_ids_def)
  qed
qed

lemma setMaxRequests_side_tables:
  assumes "side_tables_ok s"
  shows "side_tables_ok (setMaxRequests m s)"
proof (cases "m < int (length (requests s))")
  case True
  let ?xs = "requests s"
  have cover: "set ?xs \<subseteq> set (js_slice ?xs 0 (int (length ?xs) - m)) \<union> set (js_slice_from ?xs (- m))"
    using True by (rule js_slice_cover)
  have old: "favorites s \<subseteq> req_id ` set ?xs" "selected s \<subseteq> req_id ` set ?xs"
    using assms by (auto simp add: side_tables_ok_def present_ids_def)
  have st: "setMaxRequests m s
      = s\<lparr>maxRequests := m, requests := js_slice_from ?xs (- m),
           favorites := {i \<in> favorites s. i \<notin> req_id ` set (js_slice ?xs 0 (int (length ?xs) - m))},
           selected := {i \<in> selected s. i \<notin> req_id ` set (js_slice ?xs 0 (int (length ?xs) - m))}\<rparr>"
    using True by (simp add: setMaxRequests_def Let_def)
  show ?thesis
    unfolding st side_tables_ok_def present_ids_def
    using purge_subset[OF old(1) cover] purge_subset[OF old(2) cover] by simp
next
  case False
  with assms show ?thesis
    by (simp add: setMaxRequests_def side_tables_ok_def present_ids_def)
qed

lemma removeRequest_side_tables:
  "side_tables_ok s \<Longrightarrow> side_tables_ok (removeRequest i s)"
  by (auto simp add: removeRequest_def side_tables_ok_def present_ids_def)

lemma selectAll_side_tables:
  "side_tables_ok s \<Longrightarrow> side_tables_ok (selectAll s)"
  by (auto simp add: selectAll_def getFilteredRequests_def Let_def side_tables_ok_def present_ids_def)

text \<open>
  Claim C1. On a store that is not paused and has a capacity \<open>C \<ge> 1\<close>, after a run of
  admissions that brings the number of admitted records above \<open>C\<close>, the store holds
  exactly the \<open>C\<close> most recent records in arrival order, and the id of every evicted
  record is gone from the favourites and from the selection. (The capacity of the
  application ranges over 100..2000.)
\<close>

theorem addRequest_fifo:
  assumes "\<not> isPaused s" and "0 < maxRequests s" and "rs \<noteq> []"
    and "maxRequests s < int (length (requests s @ rs))"
  shows "requests (admit_all rs s)
           = drop (length (requests s @ rs) - nat (maxRequests s)) (requests s @ rs)
       \<and> int (length (requests (admit_all rs s))) = maxRequests s
       \<and> (\<forall>r \<in> set (take (length (requests s @ rs) - nat (maxRequests s)) (requests s @ rs)).
             req_id r \<notin> favorites (admit_all rs s) \<and> req_id r \<notin> selected (admit_all rs s))"
proof -
  have ok: "rs \<noteq> [] \<or> int (length (requests s)) \<le> maxRequests s"
    using assms(3) by simp
  have r: "requests (admit_all rs s)
           = drop (length (requests s @ rs) - nat (maxRequests s)) (requests s @ rs)"
    by (rule admit_all_requests[OF assms(1,2) ok])
  have l: "int (length (requests (admit_all rs s))) = maxRequests s"
    unfolding r using assms(2,4) by simp
  have f: "\<forall>r \<in> set (take (length (requests s @ rs) - nat (maxRequests s)) (requests s @ rs)).
             req_id r \<notin> favorites (admit_all rs s) \<and> req_id r \<notin> selected (admit_all rs s)"
    unfolding admit_all_favorites[OF assms(1,2) ok] by blast
  from r l f show ?thesis by blast
qed

theorem addRequest_fifo_witness:
  "requests (admit_all [sample_request ''b'', sample_request ''c'']
      (initialState\<lparr>requests := [sample_request ''a''], favorites := {''a''},
                     selected := {''a''}, maxRequests := 2\<rparr>))
     = [sample_request ''b'', sample_request ''c'']
   \<and> ''a'' \<notin> favorites (admit_all [sample_request ''b'', sample_request ''c'']
      (initialState\<lparr>requests := [sample_request ''a''], favorites := {''a''},
                     selected := {''a''}, maxRequests := 2\<rparr>))
   \<and> ''a'' \<notin> selected (admit_all [sample_request ''b'', sample_request ''c'']
      (initialState\<lparr>requests := [sample_request ''a''], favorites := {''a''},
                     selected := {''a''}, maxRequests := 2\<rparr>))"
  using addRequest_fifo[of "initialState\<lparr>requests := [sample_request ''a''], favorites := {''a''},
                     selected := {''a''}, maxRequests := 2\<rparr>"
      "[sample_request ''b'', sample_request ''c'']"]
  by (simp add: initialState_def sample_request_def)

text \<open>
  Remark. A capacity of 0 lies outside the range 100..2000 that the settings offer. There
  \<open>slice(-0)\<close> is \<open>slice(0)\<close>, so the sequence is kept whole while the side tables are
  purged of every id.
\<close>

lemma addRequest_capacity_zero:
  assumes "\<not> isPaused s" and "maxRequests s = 0"
  shows "requests (addRequest r s) = requests s @ [r]"
  using assms by (simp add: addRequest_def Let_def js_slice_from_def js_slice_def)

text \<open>
  Claim C5, as the code has it. Every store operation preserves "favourites and selection
  name only present records", provided the ids a toggle or \<open>setSelected\<close> is given belong
  to present records; \<open>toggleFavorite\<close> and \<open>toggleSelected\<close> flip the membership of the
  given id and of no other id, whether or not a record with that id is present.
\<close>

theorem store_ops_side_tables:
  assumes "side_tables_ok s" and "op_names_present op s"
  shows "side_tables_ok (apply_op op s)
       \<and> (i \<in> favorites (toggleFavorite i s) \<longleftrightarrow> i \<notin> favorites s)
       \<and> (j \<noteq> i \<longrightarrow> (j \<in> favorites (toggleFavorite i s) \<longleftrightarrow> j \<in> favorites s))
       \<and> (i \<in> selected (toggleSelected i s) \<longleftrightarrow> i \<notin> selected s)
       \<and> (j \<noteq> i \<longrightarrow> (j \<in> selected (toggleSelected i s) \<longleftrightarrow> j \<in> selected s))"
proof -
  have inv: "side_tables_ok (apply_op op s)"
  proof (cases op)
    case (AddRequest r)
    then show ?thesis using assms(1) by (simp add: addRequest_side_tables)
  next
    case (RemoveRequest k)
    then show ?thesis using assms(1) by (simp add: removeRequest_side_tables)
  next
    case ClearRequests
    then show ?thesis by (simp add: clearRequests_def side_tables_ok_def present_ids_def)
  next
    case (ToggleSelected k)
    then show ?thesis using assms
      by (auto simp add: toggleSelected_def op_names_present_def side_tables_ok_def present_ids_def)
  next
    case SelectAll
    then show ?thesis using assms(1) by (simp add: selectAll_side_tables)
  next
    case DeselectAll
    then show ?thesis using assms(1)
      by (simp add: deselectAll_def side_tables_ok_def present_ids_def)
  next
    case (SetSelected ids)
    then show ?thesis using assms
      by (auto simp add: setSelected_def op_names_present_def side_tables_ok_def present_ids_def)
  next
    case (ToggleFavorite k)
    then show ?thesis using assms
      by (auto simp add: toggleFavorite_def op_names_present_def side_tables_ok_def present_ids_def)
  next
    case ClearFavorites
    then show ?thesis using assms(1)
      by (simp add: clearFavorites_def side_tables_ok_def present_ids_def)
  next
    case (SetPaused p)
    then show ?thesis using assms(1)
      by (simp add: setPaused_def side_tables_ok_def present_ids_def)
  next
    case (SetMaxRequests m)
    then show ?thesis using assms(1) by (simp add: setMaxRequests_side_tables)
  next
    case (SetSearchQuery q)
    then show ?thesis using assms(1)
      by (simp add: setSearchQuery_def side_tables_ok_def present_ids_def)
  qed
  have flips: "(i \<in> favorites (toggleFavorite i s) \<longleftrightarrow> i \<notin> favorites s)"
    "(j \<noteq> i \<longrightarrow> (j \<in> favorites (toggleFavorite i s) \<longleftrightarrow> j \<in> favorites s))"
    "(i \<in> selected (toggleSelected i s) \<longleftrightarrow> i \<notin> selected s)"
    "(j \<noteq> i \<longrightarrow> (j \<in> selected (toggleSelected i s) \<longleftrightarrow> j \<in> selected s))"
    by (auto simp add: toggleFavorite_def toggleSelected_def)
  from inv flips show ?thesis by blast
qed

theorem store_ops_side_tables_witness:
  "side_tables_ok (initialState\<lparr>requests := [sample_request ''a'']\<rparr>)
   \<and> op_names_present (ToggleFavorite ''a'') (initialState\<lparr>requests := [sample_request ''a'']\<rparr>)
   \<and> side_tables_ok (apply_op (ToggleFavorite ''a'') (initialState\<lparr>requests := [sample_request ''a'']\<rparr>))
   \<and> ''a'' \<in> favorites (toggleFavorite ''a'' (initialState\<lparr>requests := [sample_request ''a'']\<rparr>))"
proof -
  let ?s = "(initialState\<lparr>requests := [sample_request ''a'']\<rparr>) :: int RequestsState"
  have h1: "side_tables_ok ?s"
    by (simp add: side_tables_ok_def present_ids_def initialState_def)
  have h2: "op_names_present (ToggleFavorite ''a'') ?s"
    by (simp add: op_names_present_def initialState_def sample_request_def)
  show ?thesis
    using h1 h2 store_ops_side_tables[OF h1 h2, of "''a''" "''b''"]
    by (simp add: initialState_def)
qed

text \<open>
  The toggles do not look at the sequence: toggling an id that no record carries is not a
  no-op, and it breaks the subset invariant.
\<close>

theorem toggleFavorite_absent_counterexample:
  "side_tables_ok (initialState :: int RequestsState)
   \<and> ''x'' \<notin> present_ids (initialState :: int RequestsState)
   \<and> toggleFavorite ''x'' (initialState :: int RequestsState) \<noteq> initialState
   \<and> \<not> side_tables_ok (toggleFavorite ''x'' (initialState :: int RequestsState))"
  by (simp add: side_tables_ok_def present_ids_def initialState_def toggleFavorite_def)

section \<open>Redaction engine: rule order, skipped rules, the preview\<close>

lemma sanitize_loop_append:
  "sanitize_loop E (rs @ [r]) s = apply_rule E r (sanitize_loop E rs s)"
  by (induction rs arbitrary: s) (simp_all add: apply_rule_def)

lemma Sanitize_spec_snoc:
  "Sanitize_spec E v (rs @ [r])
     = (if enabled r then apply_rule E r (Sanitize_spec E v rs) else Sanitize_spec E v rs)"
  by (simp add: Sanitize_spec_def)

lemma Sanitize_spec_loop:
  "Sanitize_spec E v rules = sanitize_loop E (filter enabled rules) v"
proof (induction rules rule: rev_induct)
  case Nil
  show ?case by (simp add: Sanitize_spec_def)
next
  case (snoc r rs)
  then show ?case
    by (simp add: Sanitize_spec_snoc sanitize_loop_append)
qed

lemma sanitize_loop_fixed:
  assumes "\<forall>r \<in> set rs. apply_rule E r y = y"
  shows "sanitize_loop E rs y = y"
  using assms
proof (induction rs rule: rev_induct)
  case Nil
  show ?case by simp
next
  case (snoc r rs)
  then show ?case by (simp add: sanitize_loop_append)
qed

lemma preview_loop_snd:
  "snd (preview_loop E v rs (m, s)) = sanitize_loop E rs s"
proof (induction rs arbitrary: m s)
  case Nil
  show ?case by simp
next
  case (Cons r rs)
  show ?case by (cases "RegExp_new E (pattern r)") (simp_all add: Cons.IH)
qed

lemma previewSanitization_sanitized:
  "sanitized (previewSanitization E v rules) = sanitize_loop E (filter enabled rules) v"
proof -
  obtain m s where ms: "preview_loop E v (filter enabled rules) ([], v) = (m, s)"
    by (cases "preview_loop E v (filter enabled rules) ([], v)")
  then have "s = sanitize_loop E (filter enabled rules) v"
    using preview_loop_snd[of E v "filter enabled rules" "[]" v] by simp
  with ms show ?thesis by (simp add: previewSanitization_def)
qed

lemma previewSanitization_hasChanges:
  "hasChanges (previewSanitization E v rules) = (v \<noteq> sanitized (previewSanitization E v rules))"
  by (simp add: previewSanitization_def Let_def split: prod.splits)

lemma previewSanitization_nonempty:
  "v \<noteq> [] \<Longrightarrow> sanitized (previewSanitization E v rules) = sanitizeValue E v rules"
  by (simp add: previewSanitization_sanitized sanitizeValue_def)

lemma sanitize_loop_keeps_fixed:
  assumes "\<forall>later \<in> set rs. keeps_fixed E r later" and "apply_rule E r u = u"
  shows "apply_rule E r (sanitize_loop E rs u) = sanitize_loop E rs u"
  using assms
proof (induction rs arbitrary: u)
  case Nil
  then show ?case by simp
next
  case (Cons r' rs)
  have step: "sanitize_loop E (r' # rs) u = sanitize_loop E rs (apply_rule E r' u)"
    by (simp add: apply_rule_def)
  have "apply_rule E r (apply_rule E r' u) = apply_rule E r' u"
    using Cons.prems by (simp add: keeps_fixed_def)
  then show ?case unfolding step using Cons.IH Cons.prems(1) by simp
qed

lemma stable_rules_fixed:
  assumes "stable_rules E rs"
  shows "\<forall>r \<in> set rs. apply_rule E r (sanitize_loop E rs t) = sanitize_loop E rs t"
  using assms
proof (induction rs arbitrary: t)
  case Nil
  show ?case by simp
next
  case (Cons r0 rs)
  have step: "sanitize_loop E (r0 # rs) t = sanitize_loop E rs (apply_rule E r0 t)"
    by (simp add: apply_rule_def)
  have idem: "apply_rule E r0 (apply_rule E r0 t) = apply_rule E r0 t"
    using Cons.prems by (simp add: rule_idempotent_def)
  have later: "\<forall>later \<in> set rs. keeps_fixed E r0 later" and rest: "stable_rules E rs"
    using Cons.prems by simp_all
  have first: "apply_rule E r0 (sanitize_loop E rs (apply_rule E r0 t))
      = sanitize_loop E rs (apply_rule E r0 t)"
    by (rule sanitize_loop_keeps_fixed[OF later idem])
  have others: "\<forall>r \<in> set rs. apply_rule E r (sanitize_loop E rs (apply_rule E r0 t))
      = sanitize_loop E rs (apply_rule E r0 t)"
    by (rule Cons.IH[OF rest])
  show ?case unfolding step using first others by simp
qed

subsection \<open>Single-character rules of the literal engine\<close>

lemma lit_replace_single:
  "lit_replace [x] t [y] = map (\<lambda>c. if toLowerChar c = toLowerChar x then y else c) t"
  unfolding lit_replace_def
  by (induction t) (simp_all add: toLowerCase_def)

lemma apply_rule_upper_a:
  "apply_rule literal_engine (sample_rule ''a'' ''A'') t
     = map (\<lambda>c. if toLowerChar c = CHR ''a'' then CHR ''A'' else c) t"
  by (simp add: apply_rule_def literal_engine_def sample_rule_def lit_RegExp_def
      lit_replace_single toLowerChar_def)

lemma apply_rule_upper_b:
  "apply_rule literal_engine (sample_rule ''b'' ''B'') t
     = map (\<lambda>c. if toLowerChar c = CHR ''b'' then CHR ''B'' else c) t"
  by (simp add: apply_rule_def literal_engine_def sample_rule_def lit_RegExp_def
      lit_replace_single toLowerChar_def)

lemma apply_rule_unbalanced:
  "apply_rule literal_engine (sample_rule ''('' ''y'') t = t"
  by (simp add: apply_rule_def literal_engine_def sample_rule_def lit_RegExp_def)

lemma toLowerChar_upper: "toLowerChar CHR ''A'' = CHR ''a''" "toLowerChar CHR ''B'' = CHR ''b''"
  by (simp_all add: toLowerChar_def)

lemma upper_rules_stable: "stable_rules literal_engine (filter enabled upper_rules)"
proof -
  have en: "filter enabled upper_rules
      = [sample_rule ''a'' ''A'', sample_rule ''('' ''y'', sample_rule ''b'' ''B'']"
    by (simp add: upper_rules_def sample_rule_def)
  have ia: "rule_idempotent literal_engine (sample_rule ''a'' ''A'')"
    by (simp add: rule_idempotent_def apply_rule_upper_a toLowerChar_upper)
  have ib: "rule_idempotent literal_engine (sample_rule ''b'' ''B'')"
    by (simp add: rule_idempotent_def apply_rule_upper_b toLowerChar_upper)
  have iu: "rule_idempotent literal_engine (sample_rule ''('' ''y'')"
    by (simp add: rule_idempotent_def apply_rule_unbalanced)
  have kau: "keeps_fixed literal_engine (sample_rule ''a'' ''A'') (sample_rule ''('' ''y'')"
    by (simp add: keeps_fixed_def apply_rule_unbalanced)
  have kub: "keeps_fixed literal_engine (sample_rule ''('' ''y'') (sample_rule ''b'' ''B'')"
    by (simp add: keeps_fixed_def apply_rule_unbalanced)
  have kab: "keeps_fixed literal_engine (sample_rule ''a'' ''A'') (sample_rule ''b'' ''B'')"
    unfolding keeps_fixed_def apply_rule_upper_a apply_rule_upper_b
    by (auto simp add: map_idI toLowerChar_upper dest!: map_eq_conv[THEN iffD1, of _ _ "\<lambda>c. c", simplified])
  show ?thesis
    unfolding en using ia ib iu kau kub kab by simp
qed

lemma swallowing_rule_not_idempotent:
  "\<not> rule_idempotent literal_engine (sample_rule ''ab'' ''b'')"
proof
  assume "rule_idempotent literal_engine (sample_rule ''ab'' ''b'')"
  then have "apply_rule literal_engine (sample_rule ''ab'' ''b'')
               (apply_rule literal_engine (sample_rule ''ab'' ''b'') ''aab'')
             = apply_rule literal_engine (sample_rule ''ab'' ''b'') ''aab''"
    unfolding rule_idempotent_def by blast
  moreover have "apply_rule literal_engine (sample_rule ''ab'' ''b'') ''aab'' = ''ab''"
    by code_simp
  moreover have "apply_rule literal_engine (sample_rule ''ab'' ''b'') ''ab'' = ''b''"
    by code_simp
  ultimately show False by simp
qed

text \<open>
  Claim C2, as the code has it. For a non-empty input, \<open>sanitizeValue\<close> returns what the
  contract describes: the enabled rules applied in list order, each to the output of the
  previous one, a rule whose pattern does not compile being skipped while the others still
  run. An empty input is returned as it is, before any rule is looked at. The function is
  total: the only operation that can throw, compiling the pattern, is caught.
\<close>

theorem sanitizeValue_rules_in_order:
  "(v \<noteq> [] \<longrightarrow> sanitizeValue E v rules = Sanitize_spec E v rules)
   \<and> sanitizeValue E [] rules = []"
  by (simp add: sanitizeValue_def Sanitize_spec_loop)

theorem sanitizeValue_rules_in_order_witness:
  "''aab'' \<noteq> []
   \<and> sanitizeValue literal_engine ''aab''
        [(sample_rule ''a'' ''z'')\<lparr>enabled := False\<rparr>, sample_rule ''('' ''y'', sample_rule ''ab'' ''b'']
      = ''ab''
   \<and> Sanitize_spec literal_engine ''aab''
        [(sample_rule ''a'' ''z'')\<lparr>enabled := False\<rparr>, sample_rule ''('' ''y'', sample_rule ''ab'' ''b'']
      = ''ab''"
proof -
  have e: "Sanitize_spec literal_engine ''aab''
        [(sample_rule ''a'' ''z'')\<lparr>enabled := False\<rparr>, sample_rule ''('' ''y'', sample_rule ''ab'' ''b'']
      = ''ab''"
    by code_simp
  show ?thesis
    using e sanitizeValue_rules_in_order[of "''aab''" literal_engine
        "[(sample_rule ''a'' ''z'')\<lparr>enabled := False\<rparr>, sample_rule ''('' ''y'', sample_rule ''ab'' ''b'']"]
    by simp
qed

text \<open>
  On the empty string the guard \<open>if (!value) return value\<close> returns before the loop, so a
  rule that matches the empty string is not applied.
\<close>

theorem sanitizeValue_empty_counterexample:
  "sanitizeValue literal_engine [] [sample_rule [] ''X''] = []
   \<and> Sanitize_spec literal_engine [] [sample_rule [] ''X''] = ''X''"
  by code_simp

text \<open>
  Claim C7 fails as stated: a replacement text that no pattern matches can still complete
  a match together with the text around it. With the single rule \<open>ab \<mapsto> b\<close>, the input
  \<open>aab\<close> becomes \<open>ab\<close>, and \<open>ab\<close> becomes \<open>b\<close>.
\<close>

theorem sanitizeValue_idempotent_counterexample:
  "replacement_unmatched literal_engine [sample_rule ''ab'' ''b'']
   \<and> sanitizeValue literal_engine (sanitizeValue literal_engine ''aab'' [sample_rule ''ab'' ''b''])
        [sample_rule ''ab'' ''b'']
     \<noteq> sanitizeValue literal_engine ''aab'' [sample_rule ''ab'' ''b'']"
proof -
  have a: "replacement_unmatched literal_engine [sample_rule ''ab'' ''b'']"
    unfolding replacement_unmatched_def by code_simp
  have b: "sanitizeValue literal_engine ''aab'' [sample_rule ''ab'' ''b''] = ''ab''"
    by code_simp
  have c: "sanitizeValue literal_engine ''ab'' [sample_rule ''ab'' ''b''] = ''b''"
    by code_simp
  show ?thesis using a unfolding b c by simp
qed

text \<open>
  Claim C7, amended. \<open>Sanitize(Sanitize(x, R), R) = Sanitize(x, R)\<close> for every string \<open>x\<close>
  and every rule list \<open>R\<close> whose enabled rules are each idempotent on their own, and in
  which no enabled rule turns a text that an earlier enabled rule leaves unchanged into
  one that the earlier rule would change. A rule whose replacement still matches its own
  pattern can satisfy this, as the key-preserving rules do; the swallowing rule of the
  counterexample does not (\<open>swallowing_rule_not_idempotent\<close>).
\<close>

theorem sanitizeValue_idempotent_stable_rules:
  assumes "stable_rules E (filter enabled rules)"
  shows "sanitizeValue E (sanitizeValue E x rules) rules = sanitizeValue E x rules"
proof (cases "x = []")
  case True
  then show ?thesis by (simp add: sanitizeValue_def)
next
  case False
  let ?rs = "filter enabled rules"
  let ?y = "sanitize_loop E ?rs x"
  have y: "sanitizeValue E x rules = ?y"
    using False by (simp add: sanitizeValue_def)
  have "\<forall>r \<in> set ?rs. apply_rule E r ?y = ?y"
    by (rule stable_rules_fixed[OF assms])
  then have "sanitize_loop E ?rs ?y = ?y"
    by (rule sanitize_loop_fixed)
  then show ?thesis
    unfolding y by (simp add: sanitizeValue_def)
qed

theorem sanitizeValue_idempotent_stable_rules_witness:
  "stable_rules literal_engine (filter enabled upper_rules)
   \<and> \<not> replacement_unmatched literal_engine upper_rules
   \<and> sanitizeValue literal_engine ''xabc'' upper_rules = ''xABc''
   \<and> sanitizeValue literal_engine (sanitizeValue literal_engine ''xabc'' upper_rules) upper_rules
       = ''xABc''"
proof -
  have v: "sanitizeValue literal_engine ''xabc'' upper_rules = ''xABc''"
    unfolding upper_rules_def by code_simp
  have n: "\<not> replacement_unmatched literal_engine upper_rules"
    unfolding replacement_unmatched_def upper_rules_def by code_simp
  show ?thesis
    using upper_rules_stable n v
      sanitizeValue_idempotent_stable_rules[OF upper_rules_stable, of "''xabc''"]
    by simp
qed

text \<open>
  Claim C10 at the empty input: \<open>previewSanitization\<close> has no guard for the empty string
  and applies a rule that matches it, while \<open>sanitizeValue\<close> returns the empty string
  untouched. For every non-empty input the two agree (\<open>previewSanitization_nonempty\<close>),
  and \<open>hasChanges\<close> always compares the input with the preview's own output
  (\<open>previewSanitization_hasChanges\<close>).
\<close>

theorem previewSanitization_empty_input:
  "sanitized (previewSanitization literal_engine [] [sample_rule [] ''X'']) = ''X''
   \<and> hasChanges (previewSanitization literal_engine [] [sample_rule [] ''X''])
   \<and> sanitizeValue literal_engine [] [sample_rule [] ''X''] = []"
  by code_simp

section \<open>Classifier, body loader and replay\<close>

lemma body_condition_eq:
  "(is_object (safeJsonParse P s)
      \<and> ((case get_query (safeJsonParse P s) of Some (JStr _) \<Rightarrow> True | _ \<Rightarrow> False)
          \<or> (case get_query (safeJsonParse P s) of
                Some (JStr q) \<Rightarrow> startsWith (trim q) ''mutation'' | _ \<Rightarrow> False)))
   = body_has_query P (Some s)"
  by (auto simp add: is_object_def safeJsonParse_def get_query_def body_has_query_def
      split: option.splits json.splits)







text \<open>
  The capture path's classifier, characterised. \<open>isGraphQLRequest\<close> of \<open>graphql.ts\<close> is
  true if and only if the first header whose lower-cased name is \<open>content-type\<close> has a
  value containing \<open>application/json\<close>, and either the non-empty request body parses as
  a JSON object with a string-typed \<open>query\<close> field, or the lower-cased URL contains
  \<open>/graphql\<close> and the method is exactly \<open>POST\<close>.
\<close>

lemma isGraphQLRequest_iff:
  "isGraphQLRequest P r \<longleftrightarrow>
     json_content_type (requestHeaders r)
     \<and> ((truthy_string (requestBody r) \<and> body_has_query P (requestBody r))
        \<or> (str_includes (toLowerCase (url r)) ''/graphql'' \<and> req_method r = ''POST''))"
proof (cases "requestBody r")
  case None
  then show ?thesis
    by (auto simp add: isGraphQLRequest_def Let_def json_content_type_def truthy_string_def
        split: option.splits)
next
  case (Some s)
  show ?thesis
    unfolding isGraphQLRequest_def Let_def json_content_type_def
    using body_condition_eq[of P s]
    by (auto simp add: Some truthy_string_def split: option.splits)
qed

lemma isGraphQLRequest_post_json:
  "isGraphQLRequest (json_table [(''{\"query\":\"{ me }\"}'', JObj [(''query'', JStr ''{ me }'')])])
     graphql_post"
  unfolding graphql_post_def by code_simp

text \<open>
  Claim C3 on a URL-only match. A captured GET of \<open>https://x/graphql\<close> without headers
  and without a body satisfies the first alternative of the claim, and \<open>parseHarEntry\<close>
  leaves its GraphQL flag false: both branches of \<open>isGraphQLRequest\<close> in \<open>graphql.ts\<close> ask
  for a JSON content type. The classifier of the replay path, \<open>isGraphQLRequest(url, body)\<close>
  in \<open>replay.ts\<close>, answers true for the same URL and body.
\<close>

theorem isGraphQLRequest_misses_url_only:
  "GraphQL_spec (json_table []) graphql_get
   \<and> \<not> isGraphQLRequest (json_table []) graphql_get
   \<and> url (parseHarEntry (json_table []) ''id1'' graphql_get_entry) = ''https://x/graphql''
   \<and> \<not> isGraphQL (parseHarEntry (json_table []) ''id1'' graphql_get_entry)
   \<and> replay_isGraphQLRequest (json_table []) (url graphql_get) (requestBody graphql_get)"
  unfolding graphql_get_def graphql_get_entry_def by code_simp

text \<open>
  Claim C6 fails at the threshold itself: a declared size of exactly \<open>500 * 1024\<close> bytes
  is still loaded inline (\<open>responseBodySize <= MAX_BODY_SIZE\<close>), with no loader attached.
\<close>

theorem parseHarEntry_at_threshold_counterexample:
  "hasFullResponseBody (parseHarEntry (json_table []) ''id1'' (sample_entry (500 * 1024) (Some ''x'')))
   \<and> responseBody (parseHarEntry (json_table []) ''id1'' (sample_entry (500 * 1024) (Some ''x''))) = Some ''x''
   \<and> getFullResponseBody (parseHarEntry (json_table []) ''id1'' (sample_entry (500 * 1024) (Some ''x''))) = None"
  by code_simp

text \<open>
  Claim C6, as the code has it. A declared size of at most \<open>500 KiB\<close> is fetched inline:
  the body is the fetched content and \<open>hasFullResponseBody\<close> is true when the fetch
  succeeds; when it fails the body is absent, the flag is false, nothing is raised, and no
  loader is attached. A declared size above \<open>500 KiB\<close> leaves the body unattached, the
  flag false, and attaches the deferred loader.
\<close>

theorem parseHarEntry_body_loading:
  "(declared_size entry \<le> 500 * 1024 \<longrightarrow>
      responseBody (parseHarEntry P i entry) = getContent entry
      \<and> hasFullResponseBody (parseHarEntry P i entry) = (getContent entry \<noteq> None)
      \<and> getFullResponseBody (parseHarEntry P i entry) = None)
   \<and> (500 * 1024 < declared_size entry \<longrightarrow>
      responseBody (parseHarEntry P i entry) = None
      \<and> \<not> hasFullResponseBody (parseHarEntry P i entry)
      \<and> getFullResponseBody (parseHarEntry P i entry) = Some (Loader (getContent entry)))"
  by (cases "getContent entry")
     (simp_all add: parseHarEntry_def declared_size_def MAX_BODY_SIZE_def Let_def)

theorem parseHarEntry_body_loading_witness:
  "declared_size (sample_entry 512001 (Some ''x'')) = 512001
   \<and> responseBody (parseHarEntry (json_table []) ''id1'' (sample_entry 512001 (Some ''x''))) = None
   \<and> \<not> hasFullResponseBody (parseHarEntry (json_table []) ''id1'' (sample_entry 512001 (Some ''x'')))
   \<and> getFullResponseBody (parseHarEntry (json_table []) ''id1'' (sample_entry 512001 (Some ''x'')))
       = Some (Loader (Some ''x''))
   \<and> declared_size (sample_entry 100 None) = 100
   \<and> responseBody (parseHarEntry (json_table []) ''id2'' (sample_entry 100 None)) = None
   \<and> \<not> hasFullResponseBody (parseHarEntry (json_table []) ''id2'' (sample_entry 100 None))"
proof -
  have a: "declared_size (sample_entry 512001 (Some ''x'')) = 512001"
    by (simp add: declared_size_def sample_entry_def)
  have b: "declared_size (sample_entry 100 None) = 100"
    by (simp add: declared_size_def sample_entry_def)
  have c: "getContent (sample_entry 512001 (Some ''x'')) = Some ''x''"
    "getContent (sample_entry 100 None) = None"
    by (simp_all add: sample_entry_def)
  show ?thesis
    using parseHarEntry_body_loading[of "sample_entry 512001 (Some ''x'')" "json_table []" "''id1''"]
      parseHarEntry_body_loading[of "sample_entry 100 None" "json_table []" "''id2''"]
    unfolding a b c by simp
qed



text \<open>
  Remark. A header object with an own key \<open>__proto__\<close> cannot come from the replay editor
  or from a captured request, both of which assign \<open>obj[key] = value\<close>. Were one supplied,
  the assignment in \<open>filterHeaders\<close> would store nothing for that key, and the header
  would not be sent.
\<close>

lemma replayRequest_proto_header:
  "replay_fetch_call (\<lambda>u. True) proto_replay =
     Inr \<lparr>fc_url = ''https://api.example.com/'', fo_method = ''GET'',
          fo_headers = [(''X-A'', ''1'')], fo_body = None\<rparr>"
  unfolding proto_replay_def by code_simp

section \<open>Context builder: searching for the separator, truncation\<close>

lemma js_slice_from_drop: "0 \<le> i \<Longrightarrow> js_slice_from xs i = drop (nat i) xs"
  by (auto simp add: js_slice_from_def js_slice_def Let_def min_def)

lemma indexOf_from_range:
  "indexOf_from p s i = - 1 \<or>
   (int i \<le> indexOf_from p s i \<and> indexOf_from p s i \<le> int i + int (length s)
    \<and> prefix p (drop (nat (indexOf_from p s i) - i) s))"
proof (induction s arbitrary: i)
  case Nil
  show ?case by simp
next
  case (Cons c cs)
  show ?case
  proof (cases "prefix p (c # cs)")
    case True
    then show ?thesis by simp
  next
    case False
    from Cons.IH[of "Suc i"] show ?thesis
    proof
      assume "indexOf_from p cs (Suc i) = - 1"
      with False show ?thesis by simp
    next
      assume a: "int (Suc i) \<le> indexOf_from p cs (Suc i)
        \<and> indexOf_from p cs (Suc i) \<le> int (Suc i) + int (length cs)
        \<and> prefix p (drop (nat (indexOf_from p cs (Suc i)) - Suc i) cs)"
      then have "nat (indexOf_from p cs (Suc i)) - i = Suc (nat (indexOf_from p cs (Suc i)) - Suc i)"
        by linarith
      with a False show ?thesis by simp
    qed
  qed
qed

lemma indexOf_range:
  assumes "indexOf s p \<noteq> - 1"
  shows "0 \<le> indexOf s p" and "indexOf s p \<le> int (length s)"
    and "prefix p (drop (nat (indexOf s p)) s)"
  using indexOf_from_range[of p s 0] assms by (auto simp add: indexOf_def)

lemma lastIndexOf_from_range:
  "lastIndexOf_from p s i = - 1 \<or>
   (int i \<le> lastIndexOf_from p s i \<and> lastIndexOf_from p s i \<le> int i + int (length s)
    \<and> prefix p (drop (nat (lastIndexOf_from p s i) - i) s))"
proof (induction s arbitrary: i)
  case Nil
  show ?case by simp
next
  case (Cons c cs)
  let ?later = "lastIndexOf_from p cs (Suc i)"
  show ?case
  proof (cases "?later \<ge> 0")
    case True
    with Cons.IH[of "Suc i"] have a: "int (Suc i) \<le> ?later
        \<and> ?later \<le> int (Suc i) + int (length cs)
        \<and> prefix p (drop (nat ?later - Suc i) cs)"
      by auto
    then have "nat ?later - i = Suc (nat ?later - Suc i)" by linarith
    with a True show ?thesis by (simp add: Let_def)
  next
    case False
    then show ?thesis by (simp add: Let_def)
  qed
qed

lemma lastIndexOf_positive:
  assumes "0 < lastIndexOf s p"
  shows "lastIndexOf s p \<le> int (length s)" and "prefix p (drop (nat (lastIndexOf s p)) s)"
  using lastIndexOf_from_range[of p s 0] assms by (auto simp add: lastIndexOf_def)

lemma prefix_shorter:
  assumes "prefix p (xs @ p @ ys)" and "xs \<noteq> []" and "p \<noteq> []"
  shows "prefix p (xs @ butlast p)"
proof -
  have "prefix (xs @ butlast p) (xs @ p @ ys)"
    by (metis append_butlast_last_id assms(3) prefix_def append.assoc)
  moreover have "length p \<le> length (xs @ butlast p)"
    using assms(2,3) by (cases xs) simp_all
  ultimately show ?thesis
    using assms(1) prefix_length_prefix by blast
qed

lemma indexOf_from_first:
  assumes "p \<noteq> []" and "\<not> str_includes (xs @ butlast p) p"
  shows "indexOf_from p (xs @ p @ ys) i = int (i + length xs)"
  using assms(2)
proof (induction xs arbitrary: i)
  case Nil
  with assms(1) show ?case by (cases p) simp_all
next
  case (Cons c cs)
  from Cons.prems have np: "\<not> prefix p ((c # cs) @ butlast p)"
    and rest: "\<not> str_includes (cs @ butlast p) p" by simp_all
  have "\<not> prefix p ((c # cs) @ p @ ys)"
    using np prefix_shorter[of p "c # cs" ys] assms(1) by blast
  then show ?case using Cons.IH[OF rest, of "Suc i"] by simp
qed

lemma indexOf_first:
  assumes "p \<noteq> []" and "\<not> str_includes (xs @ butlast p) p"
  shows "indexOf (xs @ p @ ys) p = int (length xs)"
  using indexOf_from_first[OF assms, of ys 0] by (simp add: indexOf_def)

lemma lastIndexOf_from_none:
  "\<not> str_includes s p \<Longrightarrow> lastIndexOf_from p s i = - 1"
  by (induction s arbitrary: i) (auto simp add: Let_def)

lemma lastIndexOf_head:
  assumes "prefix p (c # cs)" and "\<not> str_includes cs p"
  shows "lastIndexOf (c # cs) p = 0"
  using assms by (simp add: lastIndexOf_def Let_def lastIndexOf_from_none)

lemma prefix_into_replicate:
  assumes "prefix p (ys @ replicate k a)" and "p \<noteq> []" and "last p \<noteq> a"
  shows "prefix p ys"
proof -
  from assms(1) consider "prefix p ys" | us where "us \<noteq> []" "p = ys @ us" "prefix us (replicate k a)"
    unfolding prefix_append by (metis append_Nil2 prefix_order.order_refl)
  then show ?thesis
  proof cases
    case 1
    then show ?thesis .
  next
    case 2
    then have "last p = last us" by simp
    moreover have "set us \<subseteq> {a}"
      using 2(3) set_mono_prefix[of us "replicate k a"] by auto
    ultimately have "last p = a" using 2(1) last_in_set by fastforce
    with assms(3) show ?thesis by simp
  qed
qed

lemma str_includes_replicate_tail:
  assumes "p \<noteq> []" and "last p \<noteq> a" and "\<not> str_includes xs p"
  shows "\<not> str_includes (xs @ replicate k a) p"
  using assms(3)
proof (induction xs)
  case Nil
  have "\<not> str_includes (replicate k a) p"
  proof (induction k)
    case 0
    show ?case using assms(1) by simp
  next
    case (Suc k)
    have "\<not> prefix p (replicate (Suc k) a)"
      using prefix_into_replicate[of p "[]" "Suc k" a] assms(1,2) by auto
    with Suc show ?case by simp
  qed
  then show ?case by simp
next
  case (Cons c cs)
  from Cons.prems have a: "\<not> prefix p (c # cs)" and b: "\<not> str_includes cs p" by simp_all
  have "\<not> prefix p ((c # cs) @ replicate k a)"
    using a prefix_into_replicate[of p "c # cs" k a] assms(1,2) by blast
  with Cons.IH[OF b] show ?case by simp
qed

lemma truncateContext_found:
  assumes over: "4 * maxTokens < int (length ctx)"
    and found: "indexOf ctx section_separator = int e"
  shows "truncateContext ctx maxTokens =
      (if 4 * maxTokens - int e - 50 \<le> 0 then take e ctx @ notice_details
       else if 0 < lastIndexOf (take (nat (4 * maxTokens - int e - 50)) (drop e ctx)) section_separator
         then take e ctx
              @ take (nat (lastIndexOf (take (nat (4 * maxTokens - int e - 50)) (drop e ctx))
                             section_separator))
                  (take (nat (4 * maxTokens - int e - 50)) (drop e ctx))
              @ notice_some
       else take e ctx @ take (nat (4 * maxTokens - int e - 50)) (drop e ctx) @ notice_context)"
proof -
  have ne: "indexOf ctx section_separator \<noteq> - 1" using found by simp
  have ele: "e \<le> length ctx" using indexOf_range(2)[OF ne] found by simp
  have summary: "js_slice ctx 0 (int e) = take e ctx" by (simp add: js_slice_take)
  have remaining: "js_slice_from ctx (int e) = drop e ctx" by (simp add: js_slice_from_drop)
  have lens: "length (take e ctx) = e" using ele by simp
  have neg: "int e \<noteq> - 1" by simp
  have tc: "truncateContext ctx maxTokens =
      (if 4 * maxTokens - int e - 50 \<le> 0 then take e ctx @ notice_details
       else if 0 < lastIndexOf (js_slice (drop e ctx) 0 (4 * maxTokens - int e - 50)) section_separator
         then take e ctx
              @ js_slice (js_slice (drop e ctx) 0 (4 * maxTokens - int e - 50)) 0
                  (lastIndexOf (js_slice (drop e ctx) 0 (4 * maxTokens - int e - 50)) section_separator)
              @ notice_some
       else take e ctx @ js_slice (drop e ctx) 0 (4 * maxTokens - int e - 50) @ notice_context)"
    unfolding truncateContext_def Let_def found summary remaining lens
    using over neg by (simp only: mult.commute[of maxTokens 4] if_False not_le[symmetric])
  show ?thesis
  proof (cases "4 * maxTokens - int e - 50 \<le> 0")
    case True
    then show ?thesis by (simp only: tc if_True)
  next
    case False
    then have tr: "js_slice (drop e ctx) 0 (4 * maxTokens - int e - 50)
        = take (nat (4 * maxTokens - int e - 50)) (drop e ctx)"
      by (simp add: js_slice_take)
    show ?thesis
    proof (cases "0 < lastIndexOf (take (nat (4 * maxTokens - int e - 50)) (drop e ctx)) section_separator")
      case True
      then have "js_slice (take (nat (4 * maxTokens - int e - 50)) (drop e ctx)) 0
           (lastIndexOf (take (nat (4 * maxTokens - int e - 50)) (drop e ctx)) section_separator)
         = take (nat (lastIndexOf (take (nat (4 * maxTokens - int e - 50)) (drop e ctx))
                             section_separator))
                  (take (nat (4 * maxTokens - int e - 50)) (drop e ctx))"
        by (simp add: js_slice_take)
      with False True show ?thesis by (simp only: tc tr if_True if_False)
    next
      case nb: False
      with False show ?thesis by (simp only: tc tr if_False)
    qed
  qed
qed


lemma untruncated_context_split:
  assumes "reqs \<noteq> []"
  shows "\<exists>rest. untruncated_context F reqs
           = buildSummarySection F reqs @ section_separator @ rest"
proof -
  obtain r rs where "reqs = r # rs" using assms by (cases reqs) auto
  then show ?thesis
    by (cases rs) (auto simp add: untruncated_context_def context_sections_def enumerate_eq_zip
        upt_rec[of 0] simp del: upt_Suc)
qed

lemma estimate_over:
  "MAX_CONTEXT_TOKENS < estimateTokenCount s \<longleftrightarrow> 200000 < int (length s)"
  by (simp add: MAX_CONTEXT_TOKENS_def estimateTokenCount_def) linarith

lemma section_separator_nonempty: "section_separator \<noteq> []"
  by (simp add: section_separator_def NL_def)


lemma lastIndexOf_from_max:
  assumes "p \<noteq> []" and "prefix p (drop k s)"
  shows "int (i + k) \<le> lastIndexOf_from p s i"
  using assms(2)
proof (induction s arbitrary: i k)
  case Nil
  with assms(1) show ?case by simp
next
  case (Cons c cs)
  let ?later = "lastIndexOf_from p cs (Suc i)"
  show ?case
  proof (cases k)
    case 0
    then have here: "prefix p (c # cs)" using Cons.prems by simp
    show ?thesis
    proof (cases "?later \<ge> 0")
      case True
      moreover have "int (Suc i) \<le> ?later"
        using lastIndexOf_from_range[of p cs "Suc i"] True by auto
      ultimately show ?thesis using 0 by (simp add: Let_def)
    next
      case False
      with here 0 show ?thesis by (simp add: Let_def)
    qed
  next
    case (Suc k')
    then have "prefix p (drop k' cs)" using Cons.prems by simp
    from Cons.IH[OF this, of "Suc i"] have "int (Suc i + k') \<le> ?later" .
    then show ?thesis using Suc by (simp add: Let_def)
  qed
qed

lemma lastIndexOf_is_last:
  assumes "separator_at s k"
  shows "int k \<le> lastIndexOf s section_separator"
  using lastIndexOf_from_max[OF section_separator_nonempty, of k s 0] assms
  by (simp add: separator_at_def lastIndexOf_def)

lemma lastIndexOf_occurs:
  assumes "0 < lastIndexOf s section_separator"
  shows "separator_at s (nat (lastIndexOf s section_separator))"
  using lastIndexOf_positive(2)[OF assms] by (simp add: separator_at_def)

lemma lastIndexOf_from_replicate:
  assumes "p \<noteq> []" and "last p \<noteq> a"
  shows "lastIndexOf_from p (xs @ replicate n a) i = lastIndexOf_from p xs i"
proof (induction xs arbitrary: i)
  case Nil
  have "\<not> str_includes ([] @ replicate n a) p"
    by (rule str_includes_replicate_tail[OF assms]) (simp add: assms(1))
  then have "lastIndexOf_from p (replicate n a) i = - 1"
    using lastIndexOf_from_none by simp
  with assms(1) show ?case by simp
next
  case (Cons c cs)
  have "prefix p ((c # cs) @ replicate n a) = prefix p (c # cs)"
    using prefix_into_replicate[OF _ assms, of "c # cs" n] by (metis prefix_prefix)
  then show ?case using Cons.IH by (simp add: Let_def)
qed

lemma lastIndexOf_replicate:
  assumes "last section_separator \<noteq> a"
  shows "lastIndexOf (xs @ replicate n a) section_separator = lastIndexOf xs section_separator"
  unfolding lastIndexOf_def
  by (rule lastIndexOf_from_replicate[OF section_separator_nonempty assms])

subsection \<open>A request with a long URL\<close>

lemma long_summary:
  "buildSummarySection zero_formatters [long_request]
     = buildSummarySection zero_formatters [sample_request ''r1'']"
  by (simp add: buildSummarySection_def summary_step_def long_request_def)

lemma long_summary_length:
  "length (buildSummarySection zero_formatters [long_request]) = 148"
  unfolding long_summary by code_simp

lemma long_summary_clean:
  "\<not> str_includes (buildSummarySection zero_formatters [long_request] @ butlast section_separator)
       section_separator"
  unfolding long_summary by code_simp

lemma long_section:
  "buildRequestSection zero_formatters long_request 1 = long_head @ long_url @ long_tail"
  by (simp add: buildRequestSection_def long_request_def sample_request_def zero_formatters_def
      long_head_def long_tail_def NL_def truthy_string_def show_int_def show_nat.simps
      digit_char_def Let_def)

lemma long_context:
  "untruncated_context zero_formatters [long_request]
     = buildSummarySection zero_formatters [long_request]
       @ section_separator @ long_head @ long_url @ long_tail"
  by (simp add: untruncated_context_def context_sections_def enumerate_eq_zip long_section)

lemma long_url_length: "length long_url = 200000"
  by (simp add: long_url_def)

lemma long_context_length:
  "length (untruncated_context zero_formatters [long_request]) = 200254"
  unfolding long_context
  by (simp add: long_summary_length long_url_length section_separator_def NL_def long_head_def
      long_tail_def)

lemma long_estimate:
  "MAX_CONTEXT_TOKENS < estimateTokenCount (untruncated_context zero_formatters [long_request])"
  by (simp add: estimate_over long_context_length)

lemma long_found:
  "indexOf (untruncated_context zero_formatters [long_request]) section_separator = int 148"
  unfolding long_context
  using indexOf_first[OF section_separator_nonempty long_summary_clean]
  by (simp add: long_summary_length)

lemma long_remaining_cut:
  "take 199802 (section_separator @ long_head @ long_url @ long_tail)
     = section_separator @ long_head @ replicate 199778 CHR ''a''"
  by (simp add: section_separator_def NL_def long_head_def long_url_def)

lemma long_no_later_boundary:
  "lastIndexOf (section_separator @ long_head @ replicate 199778 CHR ''a'') section_separator = 0"
proof -
  have a: "\<not> str_includes (tl section_separator @ long_head) section_separator"
    by code_simp
  have b: "last section_separator \<noteq> CHR ''a''"
    by code_simp
  have c: "\<not> str_includes ((tl section_separator @ long_head) @ replicate 199778 CHR ''a'')
              section_separator"
    by (rule str_includes_replicate_tail[OF section_separator_nonempty b a])
  have d: "section_separator @ long_head @ replicate 199778 CHR ''a''
      = hd section_separator # ((tl section_separator @ long_head) @ replicate 199778 CHR ''a'')"
    by (simp add: section_separator_def NL_def)
  have e: "prefix section_separator
      (hd section_separator # ((tl section_separator @ long_head) @ replicate 199778 CHR ''a''))"
    by (simp add: section_separator_def NL_def)
  show ?thesis
    unfolding d by (rule lastIndexOf_head[OF e c])
qed

lemma long_buildContext:
  "buildContext zero_formatters [long_request]
     = buildSummarySection zero_formatters [long_request]
       @ section_separator @ long_head @ replicate 199778 CHR ''a'' @ notice_context"
proof -
  let ?S = "buildSummarySection zero_formatters [long_request]"
  let ?ctx = "untruncated_context zero_formatters [long_request]"
  have over: "4 * MAX_CONTEXT_TOKENS < int (length ?ctx)"
    by (simp add: long_context_length MAX_CONTEXT_TOKENS_def)
  have tk: "take 148 ?ctx = ?S"
    unfolding long_context by (simp add: long_summary_length)
  have dr: "drop 148 ?ctx = section_separator @ long_head @ long_url @ long_tail"
    unfolding long_context by (simp add: long_summary_length)
  have c1: "4 * MAX_CONTEXT_TOKENS - int 148 - 50 = 199802"
    by (simp add: MAX_CONTEXT_TOKENS_def)
  have c2: "nat (199802 :: int) = 199802" by simp
  have c3: "\<not> (199802 :: int) \<le> 0" by simp
  have c4: "\<not> (0 :: int) < 0" by simp
  have "truncateContext ?ctx MAX_CONTEXT_TOKENS
          = ?S @ (section_separator @ long_head @ replicate 199778 CHR ''a'') @ notice_context"
    unfolding truncateContext_found[OF over long_found] c1 c2 dr tk long_remaining_cut
      long_no_later_boundary
    by (simp only: c3 c4 if_False append_assoc)
  then show ?thesis
    using long_estimate by (simp add: buildContext_def Let_def)
qed

lemma whole_sections_kept_length:
  assumes "whole_sections_kept secs doc"
  shows "\<exists>k \<in> {1 .. length secs}. \<exists>n \<in> set truncation_notices.
           length doc = length (join section_separator (take k secs)) + length n"
proof -
  from assms obtain k n where k: "k \<in> set [1 ..< Suc (length secs)]"
    and n: "n \<in> set truncation_notices"
    and doc: "doc = join section_separator (take k secs) @ n"
    unfolding whole_sections_kept_def list_ex_iff by blast
  from k have "k \<in> {1 .. length secs}" by auto
  moreover from doc have "length doc = length (join section_separator (take k secs)) + length n"
    by simp
  ultimately show ?thesis using n by blast
qed


lemma separator_last_char: "last section_separator \<noteq> CHR ''a''"
  by code_simp

lemma no_separator_after:
  assumes "lastIndexOf s section_separator = int j"
  shows "\<forall>k. j < k \<longrightarrow> \<not> separator_at s k"
  using lastIndexOf_is_last[of s] assms by fastforce

lemma take_past_prefix:
  assumes "length xs = n" and "n \<le> m"
  shows "take m (xs @ ys) = xs @ take (m - n) ys"
  using assms by simp

subsection \<open>A short request before the long one\<close>

lemma pair_summary:
  "buildSummarySection zero_formatters pair_requests
     = buildSummarySection zero_formatters [sample_request ''r0'', sample_request ''r1'']"
  by (simp add: buildSummarySection_def summary_step_def long_request_def pair_requests_def)

lemma pair_summary_length:
  "length (buildSummarySection zero_formatters pair_requests) = 148"
  unfolding pair_summary by code_simp

lemma pair_summary_clean:
  "\<not> str_includes (buildSummarySection zero_formatters pair_requests @ butlast section_separator)
       section_separator"
  unfolding pair_summary by code_simp

lemma short_section_length: "length short_section = 110"
  unfolding short_section_def by code_simp

lemma pair_section2:
  "buildRequestSection zero_formatters long_request 2 = long_head2 @ long_url @ long_tail"
  by (simp add: buildRequestSection_def long_request_def sample_request_def zero_formatters_def
      long_head2_def long_tail_def NL_def truthy_string_def show_int_def show_nat.simps
      digit_char_def Let_def)

lemma pair_context:
  "untruncated_context zero_formatters pair_requests
     = buildSummarySection zero_formatters pair_requests
       @ section_separator @ short_section @ section_separator
       @ long_head2 @ long_url @ long_tail"
proof -
  have "context_sections zero_formatters pair_requests
      = [buildSummarySection zero_formatters pair_requests, short_section,
         buildRequestSection zero_formatters long_request 2]"
    by (simp add: context_sections_def enumerate_eq_zip pair_requests_def short_section_def
        upt_rec[of 0] upt_rec[of 1])
  then show ?thesis
    by (simp add: untruncated_context_def pair_section2)
qed

lemma pair_context_length:
  "length (untruncated_context zero_formatters pair_requests) = 200371"
  unfolding pair_context
  by (simp add: pair_summary_length short_section_length long_url_length section_separator_def
      NL_def long_head2_def long_tail_def)

lemma pair_estimate:
  "MAX_CONTEXT_TOKENS < estimateTokenCount (untruncated_context zero_formatters pair_requests)"
  by (simp add: estimate_over pair_context_length)

lemma pair_remainder:
  "take 199802 (drop 148 (untruncated_context zero_formatters pair_requests))
     = (section_separator @ short_section @ section_separator @ long_head2)
       @ replicate 199661 CHR ''a''"
proof -
  have d: "drop 148 (untruncated_context zero_formatters pair_requests)
      = section_separator @ short_section @ section_separator @ long_head2 @ long_url @ long_tail"
    unfolding pair_context by (simp add: pair_summary_length)
  have l: "length (section_separator @ short_section @ section_separator @ long_head2) = 141"
    by (simp add: short_section_length section_separator_def NL_def long_head2_def)
  have "take 199802 ((section_separator @ short_section @ section_separator @ long_head2)
                      @ long_url @ long_tail)
      = (section_separator @ short_section @ section_separator @ long_head2)
        @ take 199661 (long_url @ long_tail)"
    using take_past_prefix[OF l, of 199802 "long_url @ long_tail"] by simp
  also have "take 199661 (long_url @ long_tail) = replicate 199661 CHR ''a''"
    by (simp add: long_url_def)
  finally show ?thesis unfolding d by simp
qed

lemma pair_last_boundary:
  "lastIndexOf ((section_separator @ short_section @ section_separator @ long_head2)
                 @ replicate 199661 CHR ''a'') section_separator = int 117"
proof -
  have "lastIndexOf (section_separator @ short_section @ section_separator @ long_head2)
          section_separator = 117"
    unfolding short_section_def by code_simp
  then show ?thesis
    unfolding lastIndexOf_replicate[OF separator_last_char] by simp
qed

lemma pair_cut:
  "take 117 ((section_separator @ short_section @ section_separator @ long_head2)
              @ replicate 199661 CHR ''a'')
     = section_separator @ short_section"
proof -
  have l: "length (section_separator @ short_section) = 117"
    by (simp add: short_section_length section_separator_def NL_def)
  have "take 117 ((section_separator @ short_section)
                   @ (section_separator @ long_head2 @ replicate 199661 CHR ''a''))
      = section_separator @ short_section"
    using take_past_prefix[OF l, of 117 "section_separator @ long_head2 @ replicate 199661 CHR ''a''"]
    by simp
  then show ?thesis by simp
qed

lemma long_remainder:
  "take 199802 (drop 148 (untruncated_context zero_formatters [long_request]))
     = (section_separator @ long_head) @ replicate 199778 CHR ''a''"
proof -
  have "drop 148 (untruncated_context zero_formatters [long_request])
      = section_separator @ long_head @ long_url @ long_tail"
    unfolding long_context by (simp add: long_summary_length)
  then show ?thesis using long_remaining_cut by simp
qed

lemma long_last_boundary:
  "lastIndexOf ((section_separator @ long_head) @ replicate 199778 CHR ''a'') section_separator
     = int 0"
proof -
  have "lastIndexOf (section_separator @ long_head) section_separator = 0"
    by code_simp
  then show ?thesis
    unfolding lastIndexOf_replicate[OF separator_last_char] by simp
qed

text \<open>
  Claim C4, as the code has it. Whenever the estimate of the joined document exceeds the
  budget of 50000 tokens, and the summary section holds no section separator, the
  returned document starts with the summary section in full and ends with a truncation
  notice. Let the budget be \<open>200000 - 50\<close> characters less the length of the summary, and
  the remainder the first budget characters of the text after the summary (it starts with
  a separator, at offset 0). If the budget is not positive, the summary is followed by the
  notice "Request details truncated" alone. Otherwise, if a separator occurs in the
  remainder at a positive offset, the remainder is cut just before the last such
  occurrence, under the notice "Some requests truncated"; and if none does, the whole
  remainder is kept, cut where the budget ends, under the notice "Context truncated".
\<close>

theorem buildContext_truncation:
  assumes "reqs \<noteq> []"
    and "MAX_CONTEXT_TOKENS < estimateTokenCount (untruncated_context F reqs)"
    and "\<not> str_includes (buildSummarySection F reqs @ butlast section_separator) section_separator"
  shows "let S = buildSummarySection F reqs;
             budget = 4 * MAX_CONTEXT_TOKENS - int (length S) - 50;
             remainder = take (nat budget) (drop (length S) (untruncated_context F reqs))
         in take (length S) (untruncated_context F reqs) = S
          \<and> (budget \<le> 0 \<longrightarrow> buildContext F reqs = S @ notice_details)
          \<and> (0 < budget \<longrightarrow>
               (\<forall>j. 0 < j \<and> separator_at remainder j
                      \<and> (\<forall>k. j < k \<longrightarrow> \<not> separator_at remainder k)
                    \<longrightarrow> buildContext F reqs = S @ take j remainder @ notice_some)
             \<and> ((\<forall>k. 0 < k \<longrightarrow> \<not> separator_at remainder k)
                    \<longrightarrow> buildContext F reqs = S @ remainder @ notice_context)
             \<and> ((\<exists>k. 0 < k \<and> separator_at remainder k)
                    \<longrightarrow> (\<exists>j. 0 < j \<and> separator_at remainder j
                             \<and> (\<forall>k. j < k \<longrightarrow> \<not> separator_at remainder k))))"
proof -
  let ?S = "buildSummarySection F reqs"
  let ?ctx = "untruncated_context F reqs"
  let ?b = "4 * MAX_CONTEXT_TOKENS - int (length ?S) - 50"
  let ?tr = "take (nat ?b) (drop (length ?S) ?ctx)"
  let ?L = "lastIndexOf ?tr section_separator"
  obtain rest where ctx: "?ctx = ?S @ section_separator @ rest"
    using untruncated_context_split[OF assms(1)] by blast
  have found: "indexOf ?ctx section_separator = int (length ?S)"
    unfolding ctx by (rule indexOf_first[OF section_separator_nonempty assms(3)])
  have over: "4 * MAX_CONTEXT_TOKENS < int (length ?ctx)"
    using assms(2) unfolding estimate_over by (simp add: MAX_CONTEXT_TOKENS_def)
  have bc: "buildContext F reqs = truncateContext ?ctx MAX_CONTEXT_TOKENS"
    using assms(1,2) by (simp add: buildContext_def Let_def)
  have tk: "take (length ?S) ?ctx = ?S"
    unfolding ctx by simp
  note tc = truncateContext_found[OF over found, unfolded tk, folded bc]
  have none: "buildContext F reqs = ?S @ notice_details" if "?b \<le> 0"
    using that by (simp only: tc if_True)
  have cut: "buildContext F reqs = ?S @ take (nat ?L) ?tr @ notice_some" if "0 < ?b" "0 < ?L"
    using that unfolding tc by simp
  have whole: "buildContext F reqs = ?S @ ?tr @ notice_context" if "0 < ?b" "\<not> 0 < ?L"
    using that unfolding tc by simp
  have last_cut: "buildContext F reqs = ?S @ take j ?tr @ notice_some"
    if "0 < ?b" and j: "0 < j" "separator_at ?tr j" "\<forall>k. j < k \<longrightarrow> \<not> separator_at ?tr k" for j
  proof -
    have ge: "int j \<le> ?L" by (rule lastIndexOf_is_last[OF j(2)])
    then have pos: "0 < ?L" using j(1) by simp
    have "separator_at ?tr (nat ?L)" by (rule lastIndexOf_occurs[OF pos])
    with j(3) have "\<not> j < nat ?L" by blast
    with ge have "nat ?L = j" by simp
    with cut[OF that(1) pos] show ?thesis by simp
  qed
  have no_sep: "buildContext F reqs = ?S @ ?tr @ notice_context"
    if "0 < ?b" and "\<forall>k. 0 < k \<longrightarrow> \<not> separator_at ?tr k"
  proof -
    have "\<not> 0 < ?L"
    proof
      assume pos: "0 < ?L"
      have "separator_at ?tr (nat ?L)" by (rule lastIndexOf_occurs[OF pos])
      moreover have "0 < nat ?L" using pos by simp
      ultimately show False using that(2) by blast
    qed
    from whole[OF that(1) this] show ?thesis .
  qed
  have exists_last: "\<exists>j. 0 < j \<and> separator_at ?tr j \<and> (\<forall>k. j < k \<longrightarrow> \<not> separator_at ?tr k)"
    if "\<exists>k. 0 < k \<and> separator_at ?tr k"
  proof -
    from that obtain k where k: "0 < k" "separator_at ?tr k" by blast
    have ge: "int k \<le> ?L" by (rule lastIndexOf_is_last[OF k(2)])
    then have pos: "0 < ?L" using k(1) by simp
    have occ: "separator_at ?tr (nat ?L)" by (rule lastIndexOf_occurs[OF pos])
    have "\<forall>k'. nat ?L < k' \<longrightarrow> \<not> separator_at ?tr k'"
    proof (intro allI impI notI)
      fix k' assume "nat ?L < k'" "separator_at ?tr k'"
      then show False using lastIndexOf_is_last[of ?tr k'] by simp
    qed
    with occ pos show ?thesis by (intro exI[of _ "nat ?L"]) simp
  qed
  show ?thesis
    unfolding Let_def using tk none last_cut no_sep exists_last by blast
qed


text \<open>
  Claim C4 fails when the first request section alone exceeds the budget: no separator
  lies at a positive offset of the budgeted remainder, and the fallback keeps the remainder
  up to the character budget. For one request with a URL of 200000 characters the returned
  document stops inside the heading of the first request section.
\<close>

theorem buildContext_partial_section_counterexample:
  "MAX_CONTEXT_TOKENS < estimateTokenCount (untruncated_context zero_formatters [long_request])
   \<and> \<not> whole_sections_kept (context_sections zero_formatters [long_request])
         (buildContext zero_formatters [long_request])"
proof -
  let ?S = "buildSummarySection zero_formatters [long_request]"
  let ?sec = "buildRequestSection zero_formatters long_request 1"
  have secs: "context_sections zero_formatters [long_request] = [?S, ?sec]"
    by (simp add: context_sections_def enumerate_eq_zip)
  have len_doc: "length (buildContext zero_formatters [long_request]) = 199983"
    unfolding long_buildContext
    by (simp add: long_summary_length section_separator_def NL_def long_head_def notice_context_def)
  have len_sec: "length ?sec = 200099"
    unfolding long_section
    by (simp add: long_url_length long_head_def long_tail_def NL_def)
  have notices: "\<forall>n \<in> set truncation_notices. length n \<in> {33, 41, 39}"
    by (simp add: truncation_notices_def notice_context_def notice_details_def notice_some_def NL_def)
  have "\<not> whole_sections_kept [?S, ?sec] (buildContext zero_formatters [long_request])"
  proof
    assume "whole_sections_kept [?S, ?sec] (buildContext zero_formatters [long_request])"
    from whole_sections_kept_length[OF this] obtain k n where
      k: "k \<in> {1 .. length [?S, ?sec]}" and n: "n \<in> set truncation_notices"
      and eq: "199983 = length (join section_separator (take k [?S, ?sec])) + length n"
      unfolding len_doc by blast
    from k have "k = 1 \<or> k = 2" by auto
    then have "length (join section_separator (take k [?S, ?sec])) \<in> {148, 200254}"
      by (auto simp add: long_summary_length len_sec section_separator_def NL_def)
    moreover from n notices have "length n \<in> {33, 41, 39}" by blast
    ultimately show False using eq by auto
  qed
  with long_estimate show ?thesis unfolding secs by blast
qed

theorem buildContext_truncation_witness:
  "pair_requests \<noteq> []
   \<and> MAX_CONTEXT_TOKENS < estimateTokenCount (untruncated_context zero_formatters pair_requests)
   \<and> \<not> str_includes (buildSummarySection zero_formatters pair_requests @ butlast section_separator)
         section_separator
   \<and> buildContext zero_formatters pair_requests
       = buildSummarySection zero_formatters pair_requests
         @ section_separator @ short_section @ notice_some
   \<and> [long_request] \<noteq> []
   \<and> MAX_CONTEXT_TOKENS < estimateTokenCount (untruncated_context zero_formatters [long_request])
   \<and> \<not> str_includes (buildSummarySection zero_formatters [long_request] @ butlast section_separator)
         section_separator
   \<and> buildContext zero_formatters [long_request]
       = buildSummarySection zero_formatters [long_request]
         @ section_separator @ long_head @ replicate 199778 CHR ''a'' @ notice_context"
proof -
  have b: "4 * MAX_CONTEXT_TOKENS - int 148 - 50 = 199802"
    by (simp add: MAX_CONTEXT_TOKENS_def)
  have c: "nat (199802 :: int) = 199802" by simp
  have pos: "(0 :: int) < 199802" by simp
  \<comment> \<open>two requests: the cut falls on the boundary between them\<close>
  have h1: "pair_requests \<noteq> []" by (simp add: pair_requests_def)
  let ?R = "(section_separator @ short_section @ section_separator @ long_head2)
              @ replicate 199661 CHR ''a''"
  have at: "separator_at ?R 117"
    using lastIndexOf_occurs[of ?R] unfolding pair_last_boundary by simp
  have after: "\<forall>k. 117 < k \<longrightarrow> \<not> separator_at ?R k"
    by (rule no_separator_after[OF pair_last_boundary])
  note pairT = buildContext_truncation[OF h1 pair_estimate pair_summary_clean,
      unfolded Let_def pair_summary_length b c pair_remainder]
  note pairB = mp[OF pairT[THEN conjunct2, THEN conjunct2] pos]
  have j: "(0 :: nat) < 117" by simp
  have "buildContext zero_formatters pair_requests
       = buildSummarySection zero_formatters pair_requests @ take 117 ?R @ notice_some"
    by (rule mp[OF spec[OF conjunct1[OF pairB], of 117]]) (intro conjI j at after)
  then have pair: "buildContext zero_formatters pair_requests
       = buildSummarySection zero_formatters pair_requests
         @ section_separator @ short_section @ notice_some"
    unfolding pair_cut by (simp only: append_assoc)
  \<comment> \<open>one request: no boundary within the budget\<close>
  have h2: "[long_request] \<noteq> []" by simp
  let ?Q = "(section_separator @ long_head) @ replicate 199778 CHR ''a''"
  have none: "\<forall>k. 0 < k \<longrightarrow> \<not> separator_at ?Q k"
    by (rule no_separator_after[OF long_last_boundary])
  note longT = buildContext_truncation[OF h2 long_estimate long_summary_clean,
      unfolded Let_def long_summary_length b c long_remainder]
  note longB = mp[OF longT[THEN conjunct2, THEN conjunct2] pos]
  have "buildContext zero_formatters [long_request]
       = buildSummarySection zero_formatters [long_request] @ ?Q @ notice_context"
    by (rule mp[OF conjunct1[OF conjunct2[OF longB]] none])
  then have long: "buildContext zero_formatters [long_request]
       = buildSummarySection zero_formatters [long_request]
         @ section_separator @ long_head @ replicate 199778 CHR ''a'' @ notice_context"
    by (simp only: append_assoc)
  show ?thesis
    by (intro conjI h1 pair_estimate pair_summary_clean pair h2 long_estimate
        long_summary_clean long)
qed


text \<open>
  Claim C9. For the empty list \<open>buildContext\<close> returns the literal text
  \<open>No requests provided.\<close>, whose estimate is 6 tokens, below the budget, so that nothing
  is truncated. \<open>buildContext\<close> is a total function into strings: its only throwing
  operation, parsing a body as JSON, is caught (\<open>JSON_pretty\<close> returning \<open>None\<close>).
\<close>

theorem buildContext_empty:
  "buildContext F [] = ''No requests provided.''
   \<and> estimateTokenCount (buildContext F []) = 6
   \<and> \<not> MAX_CONTEXT_TOKENS < estimateTokenCount (buildContext F [])
   \<and> truncateContext (buildContext F []) MAX_CONTEXT_TOKENS = buildContext F []"
  by (simp add: buildContext_def estimateTokenCount_def MAX_CONTEXT_TOKENS_def truncateContext_def)


end
